theory Spec2Isabelle
  imports Main
begin

section \<open>Data model\<close>

text \<open>
  A rune is Go's \<^verbatim>\<open>int32\<close> code point; the scanner only ever holds \<open>-1\<close> (end of file), a
  byte, or a decoded code point in it, so \<^typ>\<open>int\<close> models it without wrap-around. Source
  text is \<^verbatim>\<open>[]byte\<close>: a list of 8-bit characters, which is Isabelle's \<^typ>\<open>string\<close>. Offsets
  are Go \<^verbatim>\<open>int\<close>s that stay between 0 and the length of the source: \<^typ>\<open>nat\<close>.
\<close>

type_synonym rune = int

text \<open>
  The token kinds of package \<^verbatim>\<open>token\<close> that the scanner returns (the enumeration itself is
  declared outside the files at hand; these are the names \<^verbatim>\<open>Scan\<close> uses; \<open>INT'\<close> is \<^verbatim>\<open>token.INT\<close>).
\<close>

datatype Token =
    ILLEGAL | EOF | COMMENT
  | IDENT | BOOL | INT' | FLOAT | STRING | RAWSTRING
  | ADD | SUB | MUL | QUO | REM
  | AND | OR
  | EQL | LSS | GTR | ASSIGN | NOT
  | NEQ | LEQ | GEQ
  | LPAREN | LBRACK | LBRACE | COMMA | PERIOD
  | RPAREN | RBRACK | RBRACE | COLON

text \<open>
  Modelled from the spec: \<^verbatim>\<open>lineInfo\<close>, the alternate-position override of a file ("mapping
  from local offset to an injected (filename, line)"); its declaration is not in the files
  at hand.
\<close>

record lineInfo =
  Offset :: nat
  Filename :: string
  Line :: nat

text \<open>
  \<^verbatim>\<open>token.File\<close>, with the fields \<^verbatim>\<open>Read\<close> fills in:
  \<^verbatim>\<open>&File{s, f.Name, f.Base, f.Size, f.Lines, f.Infos}\<close>. The first field, the pointer back
  to the owning set, is fixed by the set that holds the file and is not a field of the
  model. \<open>fsize\<close> is the field \<^verbatim>\<open>size\<close>.
\<close>

record File =
  name :: string
  base :: int
  fsize :: nat
  lines :: "nat list"
  infos :: "lineInfo list"

text \<open>
  Modelled from the spec: \<^verbatim>\<open>File.Pos\<close> ("global Pos = base + localOffset") and
  \<^verbatim>\<open>File.Offset\<close> ("inverse of Pos"). The source requires \<open>0 \<le> offset \<le> size\<close>; the scanner
  only passes offsets up to the length of its source, which \<^verbatim>\<open>Init\<close> checks to be the size.
\<close>

definition Pos :: "File \<Rightarrow> nat \<Rightarrow> int" where
  "Pos f offs = base f + int offs"

definition Offset_of :: "File \<Rightarrow> int \<Rightarrow> nat" where
  "Offset_of f p = nat (p - base f)"

text \<open>
  Modelled from the spec: \<^verbatim>\<open>File.AddLine\<close> records a line start; it is ignored unless the
  offset is greater than the last recorded line start and lies inside the file ("entries
  strictly increasing", "bounded by size"). The offset must be strictly below the size:
  \<^verbatim>\<open>TestScan\<close> expects the end-of-file position after a final newline on the line of that
  newline, in column 2.
\<close>

definition AddLine :: "File \<Rightarrow> nat \<Rightarrow> File" where
  "AddLine f offs =
     (if (lines f = [] \<or> last (lines f) < offs) \<and> offs < fsize f
      then f\<lparr>lines := lines f @ [offs]\<rparr> else f)"

text \<open>
  \<^verbatim>\<open>token.FileSet\<close> with the fields \<^verbatim>\<open>Read\<close> and \<^verbatim>\<open>Write\<close> use: \<open>base'\<close> is the field
  \<^verbatim>\<open>base\<close>, \<open>last'\<close> the cache \<^verbatim>\<open>last\<close> of the file found last (\<open>None\<close> is \<^verbatim>\<open>nil\<close>). The mutex
  only orders concurrent calls and is not modelled.
\<close>

record FileSet =
  base' :: int
  files :: "File list"
  last' :: "File option"

record serializedFile =
  Name :: string
  Base :: int
  Size :: nat
  Lines :: "nat list"
  Infos :: "lineInfo list"

text \<open>\<open>Base'\<close> is the field \<^verbatim>\<open>Base\<close> of \<^verbatim>\<open>serializedFileSet\<close>.\<close>

record serializedFileSet =
  Base' :: int
  Files :: "serializedFile list"

text \<open>
  \<^verbatim>\<open>Read\<close>: \<open>decoded\<close> is what the call \<^verbatim>\<open>decode(&ss)\<close> yields, an error or the decoded
  value. The result is the set after the call and the error returned (\<open>None\<close> is \<^verbatim>\<open>nil\<close>).
\<close>

definition Read :: "FileSet \<Rightarrow> 'e + serializedFileSet \<Rightarrow> FileSet \<times> 'e option" where
  "Read s decoded =
     (case decoded of
        Inl e \<Rightarrow> (s, Some e)
      | Inr ss \<Rightarrow>
          (s\<lparr>base' := Base' ss,
             files := map (\<lambda>f. \<lparr>name = Name f, base = Base f, fsize = Size f,
                                 lines = Lines f, infos = Infos f\<rparr>) (Files ss),
             last' := None\<rparr>,
           None))"

text \<open>
  \<^verbatim>\<open>Write\<close> builds the serialized set and returns what \<^verbatim>\<open>encode\<close> returns for it; the set
  is not changed.
\<close>

definition Write :: "FileSet \<Rightarrow> (serializedFileSet \<Rightarrow> 'r) \<Rightarrow> 'r" where
  "Write s encode =
     encode \<lparr>Base' = base' s,
             Files = map (\<lambda>f. \<lparr>Name = name f, Base = base f, Size = fsize f,
                                 Lines = lines f, Infos = infos f\<rparr>) (files s)\<rparr>"

text \<open>
  The functions of Go's standard library that the scanner calls and whose tables are not
  part of the program: \<^verbatim>\<open>unicode.IsLetter\<close>, \<^verbatim>\<open>unicode.IsDigit\<close> and the \<^verbatim>\<open>%#U\<close> verb of
  \<^verbatim>\<open>fmt.Sprintf\<close>. They are parameters of the model.
\<close>

record stdlib =
  IsLetter :: "rune \<Rightarrow> bool"
  IsDigit :: "rune \<Rightarrow> bool"
  SprintfU :: "rune \<Rightarrow> string"

text \<open>
  The scanner. \<open>err\<close> tells whether an error handler is installed (\<^verbatim>\<open>s.err != nil\<close>). The
  handler is an opaque callback: what it does is recorded in \<open>calls\<close>, the list of its
  invocations since \<^verbatim>\<open>Init\<close>, oldest first. An invocation
  \<^verbatim>\<open>s.err(s.file.Position(s.file.Pos(offs)), msg)\<close> is recorded as \<open>(offs, msg)\<close>: the offset in
  the file that the position handed to the handler resolves.
\<close>

record Scanner =
  file' :: File
  dir :: string
  src :: string
  err :: bool
  ch :: rune
  offset :: nat
  rdOffset :: nat
  ErrorCount :: nat
  calls :: "(nat \<times> string) list"

definition bom :: rune where
  "bom = 0xFEFF"

definition RuneError :: rune where
  "RuneError = 0xFFFD"

definition RuneSelf :: rune where
  "RuneSelf = 0x80"

definition MaxRune :: nat where
  "MaxRune = 0x10FFFF"

section \<open>UTF-8\<close>

text \<open>
  \<^verbatim>\<open>utf8.DecodeRune\<close> of Go's standard library: the first rune of a byte sequence and its
  width in bytes. A sequence that is not the shortest valid encoding of a code point
  outside the surrogate range decodes to \<open>(RuneError, 1)\<close>. The masks of the source are
  written as \<open>mod\<close>, the shifts as multiplications; the bit fields do not overlap, so \<open>|\<close>
  is \<open>+\<close>.
\<close>

definition DecodeRune :: "string \<Rightarrow> rune \<times> nat" where
  "DecodeRune p =
     (if p = [] then (RuneError, 0)
      else
        let p0 = (of_char (p ! 0) :: nat) in
        if p0 < 0x80 then (int p0, 1)
        else if p0 < 0xC2 \<or> 0xF5 \<le> p0 then (RuneError, 1)
        else
          let sz = (if p0 < 0xE0 then 2 else if p0 < 0xF0 then 3 else (4::nat));
              lo = (if p0 = 0xE0 then 0xA0 else if p0 = 0xF0 then 0x90 else (0x80::nat));
              hi = (if p0 = 0xED then 0x9F else if p0 = 0xF4 then 0x8F else (0xBF::nat))
          in
          if length p < sz then (RuneError, 1)
          else
            let b1 = (of_char (p ! 1) :: nat) in
            if b1 < lo \<or> hi < b1 then (RuneError, 1)
            else if sz \<le> 2 then (int ((p0 mod 32) * 64 + b1 mod 64), 2)
            else
              let b2 = (of_char (p ! 2) :: nat) in
              if b2 < 0x80 \<or> 0xBF < b2 then (RuneError, 1)
              else if sz \<le> 3
              then (int ((p0 mod 16) * 4096 + (b1 mod 64) * 64 + b2 mod 64), 3)
              else
                let b3 = (of_char (p ! 3) :: nat) in
                if b3 < 0x80 \<or> 0xBF < b3 then (RuneError, 1)
                else (int ((p0 mod 8) * 262144 + (b1 mod 64) * 4096
                             + (b2 mod 64) * 64 + b3 mod 64), 4))"

text \<open>
  Go's conversion \<^verbatim>\<open>string(ch)\<close> of a rune: its UTF-8 encoding, and the encoding of
  \<open>U+FFFD\<close> for a value that is not a valid code point.
\<close>

definition string_of_rune :: "rune \<Rightarrow> string" where
  "string_of_rune r =
     (if r < 0 \<or> int MaxRune < r \<or> (0xD800 \<le> r \<and> r < 0xE000)
      then [char_of (0xEF::nat), char_of (0xBF::nat), char_of (0xBD::nat)]
      else
        let n = nat r in
        if n < 0x80 then [char_of n]
        else if n < 0x800 then [char_of (0xC0 + n div 64), char_of (0x80 + n mod 64)]
        else if n < 0x10000
        then [char_of (0xE0 + n div 4096), char_of (0x80 + (n div 64) mod 64),
              char_of (0x80 + n mod 64)]
        else [char_of (0xF0 + n div 262144), char_of (0x80 + (n div 4096) mod 64),
              char_of (0x80 + (n div 64) mod 64), char_of (0x80 + n mod 64)])"

text \<open>The slice \<^verbatim>\<open>xs[i:j]\<close>, for \<open>i \<le> j \<le> length xs\<close> (Go panics outside).\<close>

definition slice :: "'a list \<Rightarrow> nat \<Rightarrow> nat \<Rightarrow> 'a list" where
  "slice xs i j = take (j - i) (drop i xs)"

section \<open>The scanner\<close>

definition error :: "Scanner \<Rightarrow> nat \<Rightarrow> string \<Rightarrow> Scanner" where
  "error s offs msg =
     (let s1 = (if err s then s\<lparr>calls := calls s @ [(offs, msg)]\<rparr> else s)
      in s1\<lparr>ErrorCount := ErrorCount s1 + 1\<rparr>)"

text \<open>
  \<^verbatim>\<open>next\<close> reads the next character into \<open>ch\<close>; \<open>ch < 0\<close> means end of file. (The name
  \<open>next\<close> is taken by the proof language.) Characters are written as their code points:
  \<open>10\<close> is the newline.
\<close>

definition next_ch :: "Scanner \<Rightarrow> Scanner" where
  "next_ch s =
     (if rdOffset s < length (src s) then
        let s1 = s\<lparr>offset := rdOffset s\<rparr>;
            s2 = (if ch s1 = 10 then s1\<lparr>file' := AddLine (file' s1) (offset s1)\<rparr> else s1);
            b = (of_char (src s2 ! rdOffset s2) :: int)
        in
        if b = 0 then
          (error s2 (offset s2) ''illegal character NUL'')
            \<lparr>rdOffset := rdOffset s2 + 1, ch := b\<rparr>
        else if b \<ge> RuneSelf then
          let (r, w) = DecodeRune (drop (rdOffset s2) (src s2));
              s3 = (if r = RuneError \<and> w = 1
                    then error s2 (offset s2) ''illegal UTF-8 encoding''
                    else if r = bom \<and> offset s2 > 0
                    then error s2 (offset s2) ''illegal byte order mark''
                    else s2)
          in s3\<lparr>rdOffset := rdOffset s2 + w, ch := r\<rparr>
        else s2\<lparr>rdOffset := rdOffset s2 + 1, ch := b\<rparr>
      else
        let s1 = s\<lparr>offset := length (src s)\<rparr>;
            s2 = (if ch s1 = 10 then s1\<lparr>file' := AddLine (file' s1) (offset s1)\<rparr> else s1)
        in s2\<lparr>ch := -1\<rparr>)"

text \<open>
  \<^verbatim>\<open>filepath.Split\<close> on a system whose separator is the slash: the path up to and including
  its last slash, and the rest.
\<close>

definition Split :: "string \<Rightarrow> string \<times> string" where
  "Split path =
     (let i = length (dropWhile (\<lambda>c. c \<noteq> CHR ''/'') (rev path))
      in (take i path, drop i path))"

text \<open>
  \<^verbatim>\<open>Init\<close> sets every field, so the scanner it is called on does not matter; it panics
  (\<open>None\<close>) when the size of the file is not the length of the source.
\<close>

definition Init :: "File \<Rightarrow> string \<Rightarrow> bool \<Rightarrow> Scanner option" where
  "Init f src0 handler =
     (if fsize f \<noteq> length src0 then None
      else
        let s = \<lparr>file' = f, dir = fst (Split (name f)), src = src0, err = handler,
                 ch = 32, offset = 0, rdOffset = 0, ErrorCount = 0, calls = []\<rparr>;
            s1 = next_ch s
        in Some (if ch s1 = bom then next_ch s1 else s1))"

section \<open>Progress of the scanner\<close>

text \<open>
  What is left to read: it goes down with every character read, and from 2 to 0 when the
  end of the file becomes the current character.
\<close>

definition remaining :: "Scanner \<Rightarrow> nat" where
  "remaining s =
     3 * (length (src s) - rdOffset s) + (if 0 \<le> ch s then 2 else if ch s = -1 then 0 else 1)"

text \<open>
  The states the scanner is in between two calls: the current character starts at
  \<open>offset\<close> and ends before \<open>rdOffset\<close>, and when it is an ASCII character it is the byte
  at \<open>offset\<close>; or it is the end of the file and both offsets are the length of the source.
\<close>

definition wf :: "Scanner \<Rightarrow> bool" where
  "wf s \<longleftrightarrow>
     rdOffset s \<le> length (src s) \<and>
     (if ch s < 0 then ch s = -1 \<and> offset s = length (src s) \<and> rdOffset s = length (src s)
      else offset s < rdOffset s \<and>
           (ch s < 0x80 \<longrightarrow> rdOffset s = offset s + 1 \<and> of_char (src s ! offset s) = ch s))"

text \<open>
  \<open>adv s t\<close>: \<open>t\<close> comes from \<open>s\<close> by reading characters and reporting errors. The source,
  the handler and the base of the file stay; nothing is unread; with a handler every error
  counted is one more invocation, without one nothing is invoked.
\<close>

definition adv :: "Scanner \<Rightarrow> Scanner \<Rightarrow> bool" where
  "adv s t \<longleftrightarrow>
     src t = src s \<and> err t = err s \<and> dir t = dir s \<and>
     base (file' t) = base (file' s) \<and> fsize (file' t) = fsize (file' s) \<and>
     remaining t \<le> remaining s \<and> rdOffset s \<le> rdOffset t \<and>
     (if err s
      then \<exists>new. calls t = calls s @ new \<and> ErrorCount t = ErrorCount s + length new
      else calls t = calls s \<and> ErrorCount s \<le> ErrorCount t) \<and>
     (wf s \<longrightarrow> wf t \<and> offset s \<le> offset t)"

text \<open>\<open>sadv s t\<close>: as \<open>adv\<close>, and at least one character was read.\<close>

definition sadv :: "Scanner \<Rightarrow> Scanner \<Rightarrow> bool" where
  "sadv s t \<longleftrightarrow> adv s t \<and> remaining t < remaining s \<and> (wf s \<longrightarrow> offset s < offset t)"

lemma adv_refl [simp, intro!]: "adv s s"
  by (simp add: adv_def)

lemma adv_trans: "adv s t \<Longrightarrow> adv t u \<Longrightarrow> adv s u"
  unfolding adv_def by (auto split: if_splits)

lemma sadv_adv: "sadv s t \<Longrightarrow> adv s t"
  by (simp add: sadv_def)

lemma sadv_adv_trans: "sadv s t \<Longrightarrow> adv t u \<Longrightarrow> sadv s u"
  unfolding sadv_def using adv_trans [of s t u] by (auto simp: adv_def)

lemma adv_sadv_trans: "adv s t \<Longrightarrow> sadv t u \<Longrightarrow> sadv s u"
  unfolding sadv_def using adv_trans [of s t u] by (auto simp: adv_def)

lemma DecodeRune_width:
  "p \<noteq> [] \<Longrightarrow> 1 \<le> snd (DecodeRune p) \<and> snd (DecodeRune p) \<le> length p"
  by (cases p) (auto simp: DecodeRune_def Let_def Suc_le_eq)

lemma DecodeRune_nonneg: "0 \<le> fst (DecodeRune p)"
  by (auto simp: DecodeRune_def Let_def RuneError_def)

lemma mod_window: "q * n \<le> m \<Longrightarrow> m < q * n + n \<Longrightarrow> (m::nat) mod n = m - q * n"
proof -
  assume 1: "q * n \<le> m" and 2: "m < q * n + n"
  have "m div n = q" by (rule div_nat_eqI) (use 1 2 in \<open>simp_all add: mult.commute\<close>)
  then show ?thesis using div_mult_mod_eq [of m n] by simp
qed

lemma lead2: "0xC2 \<le> p0 \<Longrightarrow> p0 < 0xE0 \<Longrightarrow> 2 \<le> (p0::nat) mod 32"
  using mod_window [of 6 32 p0] by simp

lemma lead3: "0xE0 < p0 \<Longrightarrow> p0 < 0xF0 \<Longrightarrow> 1 \<le> (p0::nat) mod 16"
  using mod_window [of 14 16 p0] by simp

lemma lead4: "0xF0 < p0 \<Longrightarrow> p0 < 0xF5 \<Longrightarrow> 1 \<le> (p0::nat) mod 8"
  using mod_window [of 30 8 p0] by simp

lemma cont_A0: "0xA0 \<le> b1 \<Longrightarrow> b1 \<le> 0xBF \<Longrightarrow> 32 \<le> (b1::nat) mod 64"
  using mod_window [of 2 64 b1] by simp

lemma cont_90: "0x90 \<le> b1 \<Longrightarrow> b1 \<le> 0xBF \<Longrightarrow> 16 \<le> (b1::nat) mod 64"
  using mod_window [of 2 64 b1] by simp

text \<open>A sequence that does not start with an ASCII byte never decodes to an ASCII rune.\<close>

lemma DecodeRune_ge:
  assumes "p \<noteq> []" "(0x80::nat) \<le> of_char (p ! 0)"
  shows "0x80 \<le> fst (DecodeRune p)"
proof -
  let ?p0 = "of_char (p ! 0) :: nat" and ?b1 = "of_char (p ! 1) :: nat"
  consider (inv) "?p0 < 0xC2 \<or> 0xF5 \<le> ?p0" | (two) "0xC2 \<le> ?p0" "?p0 < 0xE0"
    | (e0) "?p0 = 0xE0" | (three) "0xE0 < ?p0" "?p0 < 0xF0" | (f0) "?p0 = 0xF0"
    | (four) "0xF0 < ?p0" "?p0 < 0xF5"
    by linarith
  then show ?thesis
  proof cases
    case inv
    then show ?thesis
      using assms by (auto simp: DecodeRune_def Let_def RuneError_def)
  next
    case two
    then show ?thesis
      using assms lead2 [of ?p0] by (simp add: DecodeRune_def Let_def RuneError_def)
  next
    case e0
    then show ?thesis
      using assms cont_A0 [of ?b1] by (auto simp: DecodeRune_def Let_def RuneError_def)
  next
    case three
    then show ?thesis
      using assms lead3 [of ?p0] by (simp add: DecodeRune_def Let_def RuneError_def)
  next
    case f0
    then show ?thesis
      using assms cont_90 [of ?b1] by (auto simp: DecodeRune_def Let_def RuneError_def)
  next
    case four
    then show ?thesis
      using assms lead4 [of ?p0] by (simp add: DecodeRune_def Let_def RuneError_def)
  qed
qed

lemma error_fields [simp]:
  "src (error s k m) = src s" "err (error s k m) = err s" "dir (error s k m) = dir s"
  "file' (error s k m) = file' s" "ch (error s k m) = ch s"
  "offset (error s k m) = offset s" "rdOffset (error s k m) = rdOffset s"
  "ErrorCount (error s k m) = ErrorCount s + 1"
  "calls (error s k m) = (if err s then calls s @ [(k, m)] else calls s)"
  by (simp_all add: error_def Let_def)

lemma adv_error [simp]: "adv s (error s k m)"
  by (simp add: adv_def remaining_def wf_def)

lemma AddLine_fields [simp]:
  "base (AddLine f k) = base f" "fsize (AddLine f k) = fsize f" "name (AddLine f k) = name f"
  by (simp_all add: AddLine_def)

lemma of_char_nonneg [simp]: "0 \<le> (of_char c :: int)" "\<not> (of_char c :: int) < 0"
  by (simp_all add: of_char_def)

lemma next_ch_frame [simp]:
  "src (next_ch s) = src s" "err (next_ch s) = err s" "dir (next_ch s) = dir s"
  "base (file' (next_ch s)) = base (file' s)" "fsize (file' (next_ch s)) = fsize (file' s)"
  by (simp_all add: next_ch_def Let_def split: prod.splits)

lemma next_ch_offset:
  "offset (next_ch s) = (if rdOffset s < length (src s) then rdOffset s else length (src s))"
  by (simp add: next_ch_def Let_def split: prod.splits)

lemma next_ch_rdOffset:
  "rdOffset (next_ch s) =
     (if rdOffset s < length (src s)
      then rdOffset s + (if RuneSelf \<le> of_char (src s ! rdOffset s)
                         then snd (DecodeRune (drop (rdOffset s) (src s))) else 1)
      else rdOffset s)"
  by (simp add: next_ch_def Let_def RuneSelf_def split: prod.splits)

lemma next_ch_ch:
  "ch (next_ch s) =
     (if rdOffset s < length (src s)
      then (if RuneSelf \<le> of_char (src s ! rdOffset s)
            then fst (DecodeRune (drop (rdOffset s) (src s))) else of_char (src s ! rdOffset s))
      else -1)"
  by (simp add: next_ch_def Let_def RuneSelf_def split: prod.splits)

text \<open>The errors one call of \<^verbatim>\<open>next\<close> reports: at most one, for the character it reads.\<close>

definition next_errors :: "Scanner \<Rightarrow> (nat \<times> string) list" where
  "next_errors s =
     (if rdOffset s < length (src s) then
        if (of_char (src s ! rdOffset s) :: int) = 0
        then [(rdOffset s, ''illegal character NUL'')]
        else if RuneSelf \<le> of_char (src s ! rdOffset s) then
          if DecodeRune (drop (rdOffset s) (src s)) = (RuneError, 1)
          then [(rdOffset s, ''illegal UTF-8 encoding'')]
          else if fst (DecodeRune (drop (rdOffset s) (src s))) = bom \<and> 0 < rdOffset s
          then [(rdOffset s, ''illegal byte order mark'')]
          else []
        else []
      else [])"

lemma next_ch_calls:
  "calls (next_ch s) = (if err s then calls s @ next_errors s else calls s)"
  "ErrorCount (next_ch s) = ErrorCount s + length (next_errors s)"
  by (simp_all add: next_ch_def next_errors_def Let_def RuneSelf_def split: prod.splits)

lemma next_ch_remaining:
  "remaining (next_ch s) \<le> remaining s" "ch s \<noteq> -1 \<Longrightarrow> remaining (next_ch s) < remaining s"
  using DecodeRune_width [of "drop (rdOffset s) (src s)"]
        DecodeRune_nonneg [of "drop (rdOffset s) (src s)"]
  by (auto simp: remaining_def next_ch_rdOffset next_ch_ch)

lemma next_ch_ascii:
  assumes "rdOffset s < length (src s)" "ch (next_ch s) < 0x80"
  shows "(of_char (src s ! rdOffset s) :: int) < 0x80"
proof (rule ccontr)
  assume "\<not> (of_char (src s ! rdOffset s) :: int) < 0x80"
  then have 1: "(0x80 :: int) \<le> of_char (src s ! rdOffset s)" by simp
  have "(of_char (src s ! rdOffset s) :: int) = int (of_char (src s ! rdOffset s))"
    by (simp add: of_char_def)
  with 1 have "(0x80 :: nat) \<le> of_char (src s ! rdOffset s)" by linarith
  then have "0x80 \<le> fst (DecodeRune (drop (rdOffset s) (src s)))"
    using assms(1) by (intro DecodeRune_ge) simp_all
  then show False
    using assms 1 by (simp add: next_ch_ch RuneSelf_def)
qed

lemma next_ch_wf:
  "wf s \<Longrightarrow> wf (next_ch s)" "wf s \<Longrightarrow> offset s \<le> offset (next_ch s)"
  "wf s \<Longrightarrow> ch s \<noteq> -1 \<Longrightarrow> offset s < offset (next_ch s)"
  using DecodeRune_width [of "drop (rdOffset s) (src s)"]
        DecodeRune_nonneg [of "drop (rdOffset s) (src s)"]
        next_ch_ascii [of s]
  by (auto simp: wf_def next_ch_rdOffset next_ch_ch next_ch_offset RuneSelf_def
           split: if_splits)

lemma adv_next [simp]: "adv s (next_ch s)"
  unfolding adv_def using next_ch_remaining(1) [of s] next_ch_wf(1,2) [of s]
  by (simp add: next_ch_calls next_ch_rdOffset)

lemma sadv_next: "ch s \<noteq> -1 \<Longrightarrow> sadv s (next_ch s)"
  unfolding sadv_def using next_ch_remaining(2) [of s] next_ch_wf(3) [of s] by simp

lemma adv_remaining: "adv s t \<Longrightarrow> remaining t \<le> remaining s"
  by (simp add: adv_def)

section \<open>The loops of the scanner\<close>

function skipWhiteSpace :: "Scanner \<Rightarrow> Scanner" where
  "skipWhiteSpace s =
     (if ch s = 32 \<or> ch s = 9 \<or> ch s = 10 \<or> ch s = 13
      then skipWhiteSpace (next_ch s) else s)"
  by pat_completeness auto
termination
  by (relation "measure remaining") (auto intro: next_ch_remaining(2))

declare skipWhiteSpace.simps [simp del]

definition isLetter :: "stdlib \<Rightarrow> rune \<Rightarrow> bool" where
  "isLetter U c \<longleftrightarrow>
     97 \<le> c \<and> c \<le> 122 \<or> 65 \<le> c \<and> c \<le> 90 \<or> c = 95 \<or> c \<ge> RuneSelf \<and> IsLetter U c"

definition isDigit :: "stdlib \<Rightarrow> rune \<Rightarrow> bool" where
  "isDigit U c \<longleftrightarrow> 48 \<le> c \<and> c \<le> 57 \<or> c \<ge> RuneSelf \<and> IsDigit U c"

lemma isLetter_nonneg: "isLetter U c \<Longrightarrow> 0 \<le> c"
  by (auto simp: isLetter_def RuneSelf_def)

lemma isDigit_nonneg: "isDigit U c \<Longrightarrow> 0 \<le> c"
  by (auto simp: isDigit_def RuneSelf_def)

function scanIdentifier_loop :: "stdlib \<Rightarrow> Scanner \<Rightarrow> Scanner" where
  "scanIdentifier_loop U s =
     (if isLetter U (ch s) \<or> isDigit U (ch s) then scanIdentifier_loop U (next_ch s) else s)"
  by pat_completeness auto
termination
  by (relation "measure (\<lambda>(U, s). remaining s)")
     (auto intro!: next_ch_remaining(2) dest: isLetter_nonneg isDigit_nonneg)

declare scanIdentifier_loop.simps [simp del]

definition scanIdentifier :: "stdlib \<Rightarrow> Scanner \<Rightarrow> Scanner \<times> string" where
  "scanIdentifier U s =
     (let offs = offset s; s1 = scanIdentifier_loop U s
      in (s1, slice (src s1) offs (offset s1)))"

definition digitVal :: "rune \<Rightarrow> nat" where
  "digitVal c =
     (if 48 \<le> c \<and> c \<le> 57 then nat (c - 48)
      else if 97 \<le> c \<and> c \<le> 102 then nat (c - 97 + 10)
      else if 65 \<le> c \<and> c \<le> 70 then nat (c - 65 + 10)
      else 16)"

lemma digitVal_nonneg: "digitVal c < b \<Longrightarrow> b \<le> 16 \<Longrightarrow> 0 \<le> c"
  by (auto simp: digitVal_def split: if_splits)

text \<open>
  \<^verbatim>\<open>scanMantissa\<close> is called with the bases 8, 10 and 16 only. For a base above 16 the loop
  of the source would not stop at the end of the file, where \<open>digitVal\<close> is 16; the model
  stops there. For a base up to 16 the test \<open>0 \<le> ch s\<close> follows from the test on the digit
  (\<open>digitVal_nonneg\<close>) and the loop is the one of the source.
\<close>

function scanMantissa :: "nat \<Rightarrow> Scanner \<Rightarrow> Scanner" where
  "scanMantissa b s =
     (if digitVal (ch s) < b \<and> 0 \<le> ch s then scanMantissa b (next_ch s) else s)"
  by pat_completeness auto
termination
  by (relation "measure (\<lambda>(b, s). remaining s)") (auto intro!: next_ch_remaining(2))

declare scanMantissa.simps [simp del]

text \<open>
  \<^verbatim>\<open>scanComment\<close>: the initial \<open>/\<close> is consumed and \<open>ch\<close> is \<open>/\<close> (47) or \<open>*\<close> (42). The two
  loops of the source are the two functions below.
\<close>

function scanComment_line :: "Scanner \<Rightarrow> Scanner" where
  "scanComment_line s =
     (if ch s \<noteq> 10 \<and> 0 \<le> ch s then scanComment_line (next_ch s) else s)"
  by pat_completeness auto
termination
  by (relation "measure remaining") (auto intro!: next_ch_remaining(2))

declare scanComment_line.simps [simp del]

function scanComment_block :: "Scanner \<Rightarrow> Scanner" where
  "scanComment_block s =
     (if 0 \<le> ch s then
        if ch s = 42 \<and> ch (next_ch s) = 47 then next_ch (next_ch s)
        else scanComment_block (next_ch s)
      else s)"
  by pat_completeness auto
termination
  by (relation "measure remaining") (auto intro!: next_ch_remaining(2))

declare scanComment_block.simps [simp del]

definition scanComment :: "Scanner \<Rightarrow> Scanner" where
  "scanComment s =
     (if ch s = 47 then scanComment_line (next_ch s) else scanComment_block (next_ch s))"

text \<open>
  \<^verbatim>\<open>scanNumber\<close>. The labels \<^verbatim>\<open>fraction\<close> and \<^verbatim>\<open>exponent\<close> of the source are the functions
  \<open>scanFraction\<close> (which falls through to the exponent) and \<open>scanExponent\<close>; both end at
  \<^verbatim>\<open>exit\<close>. The characters: \<open>0\<close> 48, \<open>8\<close> 56, \<open>9\<close> 57, \<open>.\<close> 46, \<open>e\<close> 101, \<open>E\<close> 69, \<open>x\<close> 120,
  \<open>X\<close> 88, \<open>-\<close> 45, \<open>+\<close> 43. The flag of the octal branch that the source calls
  \<^verbatim>\<open>seenDecimalPoint\<close> is \<open>seen\<close>.
\<close>

definition scanExponent :: "Scanner \<Rightarrow> Token \<Rightarrow> Scanner \<times> Token" where
  "scanExponent s tok =
     (if ch s = 101 \<or> ch s = 69 then
        let s1 = next_ch s;
            s2 = (if ch s1 = 45 \<or> ch s1 = 43 then next_ch s1 else s1)
        in (scanMantissa 10 s2, FLOAT)
      else (s, tok))"

definition scanFraction :: "Scanner \<Rightarrow> Token \<Rightarrow> Scanner \<times> Token" where
  "scanFraction s tok =
     (if ch s = 46 then scanExponent (scanMantissa 10 (next_ch s)) FLOAT
      else scanExponent s tok)"

definition scanNumber :: "bool \<Rightarrow> Scanner \<Rightarrow> Scanner \<times> Token \<times> string" where
  "scanNumber seenDecimalPoint s =
     (let offs = offset s in
      if seenDecimalPoint then
        let (s1, tok) = scanExponent (scanMantissa 10 s) FLOAT
        in (s1, tok, slice (src s1) (offs - 1) (offset s1))
      else if ch s = 48 then
        let s1 = next_ch s in
        if ch s1 = 120 \<or> ch s1 = 88 then
          let s2 = scanMantissa 16 (next_ch s1);
              s3 = (if offset s2 - offs \<le> 2
                    then error s2 offs ''illegal hexadecimal number'' else s2)
          in (s3, INT', slice (src s3) offs (offset s3))
        else
          let s2 = scanMantissa 8 s1;
              seen = (ch s2 = 56 \<or> ch s2 = 57);
              s3 = (if seen then scanMantissa 10 s2 else s2)
          in
          if ch s3 = 46 \<or> ch s3 = 101 \<or> ch s3 = 69 then
            let (s4, tok) = scanFraction s3 INT'
            in (s4, tok, slice (src s4) offs (offset s4))
          else
            let s4 = (if seen then error s3 offs ''illegal octal number'' else s3)
            in (s4, INT', slice (src s4) offs (offset s4))
      else
        let (s1, tok) = scanFraction (scanMantissa 10 s) INT'
        in (s1, tok, slice (src s1) offs (offset s1)))"

text \<open>
  \<^verbatim>\<open>scanEscape\<close>. The \<^verbatim>\<open>switch\<close> chooses the number of digits \<open>n\<close>, the base and the
  maximum; \<open>scanEscape_tail\<close> is the rest of the function, which all digit forms share.
  The loop over the \<open>n\<close> digits is \<open>scanEscape_digits\<close>; it returns the value read, or
  \<open>None\<close> where the source returns \<^verbatim>\<open>false\<close>. \<open>x\<close> is a \<^verbatim>\<open>uint32\<close>: the arithmetic is modulo
  \<open>2 ^ 32\<close>. The characters: \<open>a b f n r t v\<close> are 97, 98, 102, 110, 114, 116, 118, the
  backslash is 92, \<open>0\<close> to \<open>7\<close> are 48 to 55, \<open>x\<close> is 120, \<open>u\<close> 117, \<open>U\<close> 85.
\<close>

fun scanEscape_digits :: "stdlib \<Rightarrow> nat \<Rightarrow> nat \<Rightarrow> Scanner \<Rightarrow> nat \<Rightarrow> Scanner \<times> nat option" where
  "scanEscape_digits U 0 b s x = (s, Some x)"
| "scanEscape_digits U (Suc n) b s x =
     (let d = digitVal (ch s) in
      if d \<ge> b then
        (error s (offset s)
           (if ch s < 0 then ''escape sequence not terminated''
            else ''illegal character '' @ SprintfU U (ch s) @ '' in escape sequence''),
         None)
      else scanEscape_digits U n b (next_ch s) ((x * b + d) mod 2 ^ 32))"

definition scanEscape_tail ::
  "stdlib \<Rightarrow> nat \<Rightarrow> nat \<Rightarrow> nat \<Rightarrow> nat \<Rightarrow> Scanner \<Rightarrow> Scanner \<times> bool" where
  "scanEscape_tail U offs n b max' s =
     (case scanEscape_digits U n b s 0 of
        (s1, None) \<Rightarrow> (s1, False)
      | (s1, Some x) \<Rightarrow>
          if x > max' \<or> 0xD800 \<le> x \<and> x < 0xE000
          then (error s1 offs ''escape sequence is invalid Unicode code point'', False)
          else (s1, True))"

definition scanEscape :: "stdlib \<Rightarrow> rune \<Rightarrow> Scanner \<Rightarrow> Scanner \<times> bool" where
  "scanEscape U quote s =
     (let offs = offset s; c = ch s in
      if c = 97 \<or> c = 98 \<or> c = 102 \<or> c = 110 \<or> c = 114 \<or> c = 116 \<or> c = 118 \<or> c = 92
         \<or> c = quote
      then (next_ch s, True)
      else if 48 \<le> c \<and> c \<le> 55 then scanEscape_tail U offs 3 8 255 s
      else if c = 120 then scanEscape_tail U offs 2 16 255 (next_ch s)
      else if c = 117 then scanEscape_tail U offs 4 16 MaxRune (next_ch s)
      else if c = 85 then scanEscape_tail U offs 8 16 MaxRune (next_ch s)
      else
        (error s offs
           (if ch s < 0 then ''escape sequence not terminated''
            else ''unknown escape sequence''),
         False))"

named_theorems adv_intros

lemmas adv_next' [adv_intros] = adv_trans [OF _ adv_next]
lemmas adv_error' [adv_intros] = adv_trans [OF _ adv_error]

lemma adv_skipWhiteSpace: "adv s (skipWhiteSpace s)"
  by (induction s rule: skipWhiteSpace.induct)
     (subst skipWhiteSpace.simps, auto intro: adv_trans [OF adv_next])

lemma adv_scanIdentifier_loop: "adv s (scanIdentifier_loop U s)"
  by (induction U s rule: scanIdentifier_loop.induct)
     (subst scanIdentifier_loop.simps, auto intro: adv_trans [OF adv_next])

lemma adv_scanMantissa: "adv s (scanMantissa b s)"
  by (induction b s rule: scanMantissa.induct)
     (subst scanMantissa.simps, auto intro: adv_trans [OF adv_next])

lemma adv_scanComment_line: "adv s (scanComment_line s)"
  by (induction s rule: scanComment_line.induct)
     (subst scanComment_line.simps, auto intro: adv_trans [OF adv_next])

lemma adv_scanComment_block: "adv s (scanComment_block s)"
  by (induction s rule: scanComment_block.induct)
     (subst scanComment_block.simps, auto intro: adv_trans [OF adv_next] adv_intros)

lemmas adv_skipWhiteSpace' [adv_intros] = adv_trans [OF _ adv_skipWhiteSpace]
lemmas adv_scanIdentifier_loop' [adv_intros] = adv_trans [OF _ adv_scanIdentifier_loop]
lemmas adv_scanMantissa' [adv_intros] = adv_trans [OF _ adv_scanMantissa]
lemmas adv_scanComment_line' [adv_intros] = adv_trans [OF _ adv_scanComment_line]
lemmas adv_scanComment_block' [adv_intros] = adv_trans [OF _ adv_scanComment_block]

lemma adv_scanComment: "adv s (scanComment s)"
  by (auto simp: scanComment_def intro!: adv_intros)

lemma adv_scanExponent: "adv s (fst (scanExponent s tok))"
  by (auto simp: scanExponent_def Let_def intro!: adv_intros)

lemmas adv_scanExponent' [adv_intros] = adv_trans [OF _ adv_scanExponent]

lemma adv_scanFraction: "adv s (fst (scanFraction s tok))"
  by (auto simp: scanFraction_def intro!: adv_intros)

lemmas adv_scanFraction' [adv_intros] = adv_trans [OF _ adv_scanFraction]

lemma adv_scanNumber: "adv s (fst (scanNumber p s))"
  by (auto simp: scanNumber_def Let_def case_prod_beta intro!: adv_intros)

lemma adv_scanEscape_digits: "adv s (fst (scanEscape_digits U n b s x))"
proof (induction n arbitrary: s x)
  case 0
  show ?case by simp
next
  case (Suc n)
  show ?case
    using adv_trans [OF adv_next Suc [of "next_ch s"]] by (simp add: Let_def)
qed

lemma adv_scanEscape_tail: "adv s (fst (scanEscape_tail U offs n b m s))"
  using adv_scanEscape_digits [of s U n b 0]
    adv_trans [OF adv_scanEscape_digits [of s U n b 0] adv_error]
  by (simp add: scanEscape_tail_def case_prod_beta split: option.splits)

lemmas adv_scanEscape_tail' [adv_intros] = adv_trans [OF _ adv_scanEscape_tail]

lemma adv_scanEscape: "adv s (fst (scanEscape U quote s))"
  by (auto simp: scanEscape_def Let_def intro!: adv_intros)

lemmas adv_scanEscape' [adv_intros] = adv_trans [OF _ adv_scanEscape]

text \<open>
  \<^verbatim>\<open>scanString\<close>: the opening quote is consumed. The loop ends at a newline (10) or the end of
  the file with an error, or after the closing quote; a backslash (92) is followed by
  \<^verbatim>\<open>scanEscape\<close>, whose result the source ignores.
\<close>

function scanString_loop :: "stdlib \<Rightarrow> rune \<Rightarrow> nat \<Rightarrow> Scanner \<Rightarrow> Scanner" where
  "scanString_loop U quote offs s =
     (if ch s = 10 \<or> ch s < 0 then error s offs ''string literal not terminated''
      else if ch s = quote then next_ch s
      else if ch s = 92 then scanString_loop U quote offs (fst (scanEscape U quote (next_ch s)))
      else scanString_loop U quote offs (next_ch s))"
  by pat_completeness auto
termination
proof (relation "measure (\<lambda>(U, quote, offs, s). remaining s)")
  fix U :: stdlib and quote :: rune and offs :: nat and s :: Scanner
  assume "\<not> (ch s = 10 \<or> ch s < 0)"
  then have less: "remaining (next_ch s) < remaining s"
    by (intro next_ch_remaining(2)) auto
  then show "((U, quote, offs, next_ch s), (U, quote, offs, s))
               \<in> measure (\<lambda>(U, quote, offs, s). remaining s)"
    by simp
  show "((U, quote, offs, fst (scanEscape U quote (next_ch s))), (U, quote, offs, s))
          \<in> measure (\<lambda>(U, quote, offs, s). remaining s)"
    using less adv_remaining [OF adv_scanEscape [of "next_ch s" U quote]] by simp
qed simp

declare scanString_loop.simps [simp del]

definition scanString :: "stdlib \<Rightarrow> rune \<Rightarrow> Scanner \<Rightarrow> Scanner \<times> string" where
  "scanString U quote s =
     (let offs = offset s - 1; s1 = scanString_loop U quote offs s
      in (s1, slice (src s1) offs (offset s1)))"

lemma adv_scanString_loop: "adv s (scanString_loop U quote offs s)"
  by (induction U quote offs s rule: scanString_loop.induct)
     (subst scanString_loop.simps,
      auto intro: adv_trans [OF adv_next] adv_trans [OF adv_trans [OF adv_next adv_scanEscape]])

lemmas adv_scanString_loop' [adv_intros] = adv_trans [OF _ adv_scanString_loop]

text \<open>
  \<^verbatim>\<open>Scan\<close> returns the position, the token and its literal, and leaves the scanner in a new
  state: the model returns the state first. \<open>Scan_switch\<close> is the inner \<^verbatim>\<open>switch ch\<close> of the
  default branch, entered after \<^verbatim>\<open>s.next()\<close>; \<open>c\<close> is the character the token starts with
  and \<open>pos\<close> its position. The characters, in the order of the cases: \<open>"\<close> 34, \<open>'\<close> 39,
  \<open>:\<close> 58, \<open>.\<close> 46, \<open>,\<close> 44, \<open>(\<close> 40, \<open>)\<close> 41, \<open>[\<close> 91, \<open>]\<close> 93, \<open>{\<close> 123, \<open>}\<close> 125, \<open>+\<close> 43,
  \<open>-\<close> 45, \<open>*\<close> 42, \<open>/\<close> 47, \<open>%\<close> 37, \<open><\<close> 60, \<open>>\<close> 62, \<open>=\<close> 61, \<open>!\<close> 33, \<open>&\<close> 38, \<open>|\<close> 124.
\<close>

definition illegal_character :: "stdlib \<Rightarrow> rune \<Rightarrow> string" where
  "illegal_character U c = ''illegal character '' @ SprintfU U c"

definition Scan_switch :: "stdlib \<Rightarrow> rune \<Rightarrow> int \<Rightarrow> Scanner \<Rightarrow> Scanner \<times> Token \<times> string" where
  "Scan_switch U c pos s =
     (if c = -1 then (s, EOF, [])
      else if c = 34 then (let (s1, lit) = scanString U 34 s in (s1, STRING, lit))
      else if c = 39 then (let (s1, lit) = scanString U 39 s in (s1, RAWSTRING, lit))
      else if c = 58 then (s, COLON, [])
      else if c = 46 then
        (if 48 \<le> ch s \<and> ch s \<le> 57 then scanNumber True s else (s, PERIOD, []))
      else if c = 44 then (s, COMMA, [])
      else if c = 40 then (s, LPAREN, [])
      else if c = 41 then (s, RPAREN, [])
      else if c = 91 then (s, LBRACK, [])
      else if c = 93 then (s, RBRACK, [])
      else if c = 123 then (s, LBRACE, [])
      else if c = 125 then (s, RBRACE, [])
      else if c = 43 then (s, ADD, [])
      else if c = 45 then (s, SUB, [])
      else if c = 42 then (s, MUL, [])
      else if c = 47 then
        (if ch s = 47 \<or> ch s = 42 then (scanComment s, COMMENT, []) else (s, QUO, []))
      else if c = 37 then (s, REM, [])
      else if c = 60 then (if ch s = 61 then (next_ch s, LEQ, []) else (s, LSS, []))
      else if c = 62 then (if ch s = 61 then (next_ch s, GEQ, []) else (s, GTR, []))
      else if c = 61 then (if ch s = 61 then (next_ch s, EQL, []) else (s, ASSIGN, []))
      else if c = 33 then (if ch s = 61 then (next_ch s, NEQ, []) else (s, NOT, []))
      else if c = 38 then
        (if ch s = 38 then (next_ch s, AND, [])
         else (error s (Offset_of (file' s) pos) (illegal_character U c),
               ILLEGAL, string_of_rune c))
      else if c = 124 then
        (if ch s = 124 then (next_ch s, OR, [])
         else (error s (Offset_of (file' s) pos) (illegal_character U c),
               ILLEGAL, string_of_rune c))
      else
        ((if c \<noteq> bom then error s (Offset_of (file' s) pos) (illegal_character U c) else s),
         ILLEGAL, string_of_rune c))"

definition Scan :: "stdlib \<Rightarrow> Scanner \<Rightarrow> Scanner \<times> int \<times> Token \<times> string" where
  "Scan U s0 =
     (let s = skipWhiteSpace s0;
          pos = Pos (file' s) (offset s);
          c = ch s
      in
      if isLetter U c then
        let (s1, lit) = scanIdentifier U s
        in (s1, pos, if lit = ''true'' \<or> lit = ''false'' then BOOL else IDENT, lit)
      else if 48 \<le> c \<and> c \<le> 57 then
        let (s1, tok, lit) = scanNumber False s in (s1, pos, tok, lit)
      else
        let (s1, tok, lit) = Scan_switch U c pos (next_ch s) in (s1, pos, tok, lit))"

lemma adv_Scan_switch: "adv s (fst (Scan_switch U c pos s))"
  using adv_scanNumber [of s True] adv_scanComment [of s] adv_scanString_loop [of s U]
    adv_next [of s]
  by (simp add: Scan_switch_def scanString_def Let_def)

lemma adv_Scan: "adv s (fst (Scan U s))"
proof -
  let ?t = "skipWhiteSpace s"
  have 1: "adv s (fst (scanNumber False ?t))"
    by (rule adv_trans [OF adv_skipWhiteSpace adv_scanNumber])
  have 2: "adv s (fst (Scan_switch U c pos (next_ch ?t)))" for c pos
    by (rule adv_trans [OF adv_trans [OF adv_skipWhiteSpace adv_next] adv_Scan_switch])
  have 3: "adv s (scanIdentifier_loop U ?t)"
    by (rule adv_trans [OF adv_skipWhiteSpace adv_scanIdentifier_loop])
  show ?thesis
    using 1 2 3 by (simp add: Scan_def scanIdentifier_def Let_def case_prod_beta)
qed

section \<open>Scanning to the end of the file\<close>

lemma scanExponent_tok: "snd (scanExponent s tok) = tok \<or> snd (scanExponent s tok) = FLOAT"
  by (simp add: scanExponent_def Let_def)

lemma scanFraction_tok: "snd (scanFraction s tok) = tok \<or> snd (scanFraction s tok) = FLOAT"
  using scanExponent_tok [of s tok] scanExponent_tok [of "scanMantissa 10 (next_ch s)" FLOAT]
  by (auto simp: scanFraction_def)

lemma scanNumber_tok:
  "fst (snd (scanNumber p s)) = INT' \<or> fst (snd (scanNumber p s)) = FLOAT"
  using scanFraction_tok [of _ INT'] scanExponent_tok [of _ FLOAT]
  by (simp add: scanNumber_def Let_def case_prod_beta)

lemma Scan_switch_lit:
  "snd (snd (Scan_switch U c pos s)) \<noteq> [] \<Longrightarrow>
   fst (snd (Scan_switch U c pos s)) \<in> {INT', FLOAT, STRING, RAWSTRING, ILLEGAL}"
  using scanNumber_tok [of True s]
  by (auto simp: Scan_switch_def Let_def case_prod_beta split: if_splits)

lemma sadv_scanIdentifier_loop:
  "isLetter U (ch s) \<Longrightarrow> sadv s (scanIdentifier_loop U s)"
  using sadv_adv_trans [OF sadv_next adv_scanIdentifier_loop, of s U] isLetter_nonneg [of U "ch s"]
  by (subst scanIdentifier_loop.simps) auto

lemma sadv_scanMantissa:
  "48 \<le> ch s \<Longrightarrow> ch s \<le> 57 \<Longrightarrow> sadv s (scanMantissa 10 s)"
  using sadv_adv_trans [OF sadv_next adv_scanMantissa, of s 10]
  by (subst scanMantissa.simps) (auto simp: digitVal_def)

lemma sadv_scanNumber:
  assumes "48 \<le> ch s" "ch s \<le> 57"
  shows "sadv s (fst (scanNumber False s))"
proof (cases "ch s = 48")
  case True
  have n: "sadv s (next_ch s)" using True by (intro sadv_next) simp
  have "adv (next_ch s) (fst (scanNumber False s))"
    using True by (auto simp: scanNumber_def Let_def case_prod_beta intro!: adv_intros)
  then show ?thesis by (rule sadv_adv_trans [OF n])
next
  case False
  have "sadv s (fst (scanFraction (scanMantissa 10 s) INT'))"
    by (rule sadv_adv_trans [OF sadv_scanMantissa [OF assms] adv_scanFraction])
  then show ?thesis using False by (simp add: scanNumber_def Let_def case_prod_beta)
qed

lemma Scan_switch_EOF: "fst (snd (Scan_switch U c pos s)) = EOF \<longleftrightarrow> c = -1"
  using scanNumber_tok [of True s]
  by (auto simp: Scan_switch_def Let_def case_prod_beta)

lemma Scan_EOF: "fst (snd (snd (Scan U s))) = EOF \<longleftrightarrow> ch (skipWhiteSpace s) = -1"
  using scanNumber_tok [of False "skipWhiteSpace s"]
  by (auto simp: Scan_def Let_def case_prod_beta Scan_switch_EOF isLetter_def RuneSelf_def)

lemma sadv_Scan:
  assumes "fst (snd (snd (Scan U s))) \<noteq> EOF"
  shows "sadv s (fst (Scan U s))"
proof -
  let ?t = "skipWhiteSpace s"
  have c: "ch ?t \<noteq> -1" using assms by (simp add: Scan_EOF)
  have "sadv ?t (fst (Scan U s))"
  proof (cases "isLetter U (ch ?t)")
    case True
    then show ?thesis
      using sadv_scanIdentifier_loop [of U ?t]
      by (simp add: Scan_def Let_def case_prod_beta scanIdentifier_def)
  next
    case False
    show ?thesis
    proof (cases "48 \<le> ch ?t \<and> ch ?t \<le> 57")
      case True
      then show ?thesis
        using False sadv_scanNumber [of ?t] by (simp add: Scan_def Let_def case_prod_beta)
    next
      case d: False
      have "sadv ?t (fst (Scan_switch U (ch ?t) (Pos (file' ?t) (offset ?t)) (next_ch ?t)))"
        by (rule sadv_adv_trans [OF sadv_next [OF c] adv_Scan_switch])
      then show ?thesis
        using False d by (auto simp: Scan_def Let_def case_prod_beta)
    qed
  qed
  then show ?thesis by (rule adv_sadv_trans [OF adv_skipWhiteSpace])
qed


lemma Init_src: "Init f src0 h = Some s \<Longrightarrow> src s = src0 \<and> err s = h \<and> fsize (file' s) = length src0 \<and> base (file' s) = base f"
  by (auto simp: Init_def Let_def split: if_splits)

lemma wf_start:
  "wf (next_ch \<lparr>file' = f, dir = d, src = x, err = h, ch = 32, offset = 0, rdOffset = 0,
                ErrorCount = 0, calls = []\<rparr>)"
  using DecodeRune_width [of x] DecodeRune_nonneg [of x]
    next_ch_ascii [of "\<lparr>file' = f, dir = d, src = x, err = h, ch = 32, offset = 0, rdOffset = 0,
                ErrorCount = 0, calls = []\<rparr>"]
  by (auto simp: wf_def next_ch_rdOffset next_ch_ch next_ch_offset RuneSelf_def)

lemma Init_wf: "Init f src0 h = Some s \<Longrightarrow> wf s"
  using wf_start [of f "fst (Split (name f))" src0 h]
    next_ch_wf(1) [OF wf_start [of f "fst (Split (name f))" src0 h]]
  by (auto simp: Init_def Let_def split: if_splits)

lemma Init_counted: "Init f src0 h = Some s \<Longrightarrow> ErrorCount s = (if h then length (calls s) else ErrorCount s) \<and> (\<not> h \<longrightarrow> calls s = [])"
  by (auto simp: Init_def Let_def next_ch_calls split: if_splits)

text \<open>
  The loop of the callers (\<^verbatim>\<open>testError\<close>, \<^verbatim>\<open>BenchmarkScan\<close>):
  \<^verbatim>\<open>for { if _, tok, _ := s.Scan(); tok == token.EOF { break } }\<close>.
\<close>

function ScanAll :: "stdlib \<Rightarrow> Scanner \<Rightarrow> Scanner" where
  "ScanAll U s =
     (if fst (snd (snd (Scan U s))) = EOF then fst (Scan U s) else ScanAll U (fst (Scan U s)))"
  by pat_completeness auto
termination
  by (relation "measure (\<lambda>(U, s). remaining s)") (auto dest: sadv_Scan simp: sadv_def)

declare ScanAll.simps [simp del]

text \<open>\<open>Scan_n U n s\<close>: the scanner after \<open>n\<close> calls of \<^verbatim>\<open>Scan\<close>.\<close>

primrec Scan_n :: "stdlib \<Rightarrow> nat \<Rightarrow> Scanner \<Rightarrow> Scanner" where
  "Scan_n U 0 s = s"
| "Scan_n U (Suc n) s = fst (Scan U (Scan_n U n s))"

section \<open>Scanning without a handler\<close>

text \<open>\<open>strip s\<close> is \<open>s\<close> with no handler installed and nothing invoked.\<close>

definition strip :: "Scanner \<Rightarrow> Scanner" where
  "strip s = s\<lparr>err := False, calls := []\<rparr>"

lemma strip_fields [simp]:
  "src (strip s) = src s" "err (strip s) = False" "dir (strip s) = dir s"
  "file' (strip s) = file' s" "ch (strip s) = ch s"
  "offset (strip s) = offset s" "rdOffset (strip s) = rdOffset s"
  "ErrorCount (strip s) = ErrorCount s" "calls (strip s) = []"
  by (simp_all add: strip_def)

lemma strip_error [simp]: "error (strip s) k m = strip (error s k m)"
  by (simp add: strip_def error_def)

lemma next_ch_file:
  "file' (next_ch s) =
     (if ch s = 10
      then AddLine (file' s) (if rdOffset s < length (src s) then rdOffset s else length (src s))
      else file' s)"
  by (simp add: next_ch_def Let_def split: prod.splits)

lemma next_errors_strip [simp]: "next_errors (strip s) = next_errors s"
  by (simp add: next_errors_def)

lemma strip_next [simp]: "next_ch (strip s) = strip (next_ch s)"
  by (rule Scanner.equality)
     (simp_all add: next_ch_file next_ch_offset next_ch_rdOffset next_ch_ch next_ch_calls)

lemma strip_skipWhiteSpace [simp]: "skipWhiteSpace (strip s) = strip (skipWhiteSpace s)"
  by (induction s rule: skipWhiteSpace.induct) (subst (1 2) skipWhiteSpace.simps, simp)

lemma strip_scanIdentifier_loop [simp]:
  "scanIdentifier_loop U (strip s) = strip (scanIdentifier_loop U s)"
  by (induction U s rule: scanIdentifier_loop.induct)
     (subst (1 2) scanIdentifier_loop.simps, simp)

lemma strip_scanMantissa [simp]: "scanMantissa b (strip s) = strip (scanMantissa b s)"
  by (induction b s rule: scanMantissa.induct) (subst (1 2) scanMantissa.simps, simp)

lemma strip_scanComment_line [simp]: "scanComment_line (strip s) = strip (scanComment_line s)"
  by (induction s rule: scanComment_line.induct) (subst (1 2) scanComment_line.simps, simp)

lemma strip_scanComment_block [simp]:
  "scanComment_block (strip s) = strip (scanComment_block s)"
  by (induction s rule: scanComment_block.induct) (subst (1 2) scanComment_block.simps, simp)

lemma strip_scanComment [simp]: "scanComment (strip s) = strip (scanComment s)"
  by (simp add: scanComment_def)

lemma strip_scanExponent [simp]:
  "scanExponent (strip s) tok = (strip (fst (scanExponent s tok)), snd (scanExponent s tok))"
  by (simp add: scanExponent_def Let_def)

lemma strip_scanFraction [simp]:
  "scanFraction (strip s) tok = (strip (fst (scanFraction s tok)), snd (scanFraction s tok))"
  by (simp add: scanFraction_def)

lemma strip_scanNumber [simp]:
  "scanNumber p (strip s) = (strip (fst (scanNumber p s)), snd (scanNumber p s))"
  by (simp add: scanNumber_def Let_def case_prod_beta)

lemma strip_scanEscape_digits [simp]:
  "scanEscape_digits U n b (strip s) x =
     (strip (fst (scanEscape_digits U n b s x)), snd (scanEscape_digits U n b s x))"
  by (induction n arbitrary: s x) (simp_all add: Let_def)

lemma strip_scanEscape_tail [simp]:
  "scanEscape_tail U k n b m (strip s) =
     (strip (fst (scanEscape_tail U k n b m s)), snd (scanEscape_tail U k n b m s))"
  by (simp add: scanEscape_tail_def case_prod_beta split: option.splits)

lemma strip_scanEscape [simp]:
  "scanEscape U q (strip s) = (strip (fst (scanEscape U q s)), snd (scanEscape U q s))"
  by (simp add: scanEscape_def Let_def)

lemma strip_scanString_loop [simp]:
  "scanString_loop U q k (strip s) = strip (scanString_loop U q k s)"
  by (induction U q k s rule: scanString_loop.induct)
     (subst (1 2) scanString_loop.simps, simp)

lemma strip_scanString [simp]:
  "scanString U q (strip s) = (strip (fst (scanString U q s)), snd (scanString U q s))"
  by (simp add: scanString_def Let_def)

lemma strip_Scan_switch [simp]:
  "Scan_switch U c pos (strip s) =
     (strip (fst (Scan_switch U c pos s)), snd (Scan_switch U c pos s))"
  by (simp add: Scan_switch_def Let_def case_prod_beta)

lemma strip_Scan: "Scan U (strip s) = (strip (fst (Scan U s)), snd (Scan U s))"
  by (simp add: Scan_def scanIdentifier_def Let_def case_prod_beta)

lemma strip_ScanAll: "ScanAll U (strip s) = strip (ScanAll U s)"
  by (induction U s rule: ScanAll.induct) (subst (1 2) ScanAll.simps, simp add: strip_Scan)

lemma strip_start:
  "\<lparr>file' = f, dir = d, src = x, err = False, ch = c, offset = i, rdOffset = j,
    ErrorCount = n, calls = []\<rparr>
   = strip \<lparr>file' = f, dir = d, src = x, err = True, ch = c, offset = i, rdOffset = j,
    ErrorCount = n, calls = []\<rparr>"
  by (simp add: strip_def)

lemma strip_Init: "Init f src0 False = map_option strip (Init f src0 True)"
  by (simp add: Init_def Let_def strip_start)

section \<open>The errors a function reports\<close>

text \<open>
  \<open>emits E s t\<close>: the invocations of the handler between \<open>s\<close> and \<open>t\<close> all lie in \<open>E\<close>, a
  set of offsets with messages. \<open>advance_errors\<close> are the messages of \<^verbatim>\<open>next\<close>, at any
  offset, \<open>escape_errors\<close> those of \<^verbatim>\<open>scanEscape\<close>; \<open>count_msg m s\<close> is the number of
  invocations with the message \<open>m\<close> so far.
\<close>

definition emits :: "(nat \<times> string) set \<Rightarrow> Scanner \<Rightarrow> Scanner \<Rightarrow> bool" where
  "emits E s t \<longleftrightarrow> (\<exists>new. calls t = calls s @ new \<and> set new \<subseteq> E)"

definition advance_errors :: "(nat \<times> string) set" where
  "advance_errors =
     {(k, m). m = ''illegal character NUL'' \<or> m = ''illegal UTF-8 encoding''
              \<or> m = ''illegal byte order mark''}"

definition escape_errors :: "stdlib \<Rightarrow> (nat \<times> string) set" where
  "escape_errors U =
     {(k, m). m = ''escape sequence not terminated'' \<or> m = ''unknown escape sequence''
              \<or> m = ''escape sequence is invalid Unicode code point''
              \<or> (\<exists>c. m = ''illegal character '' @ SprintfU U c @ '' in escape sequence'')}"

definition count_msg :: "string \<Rightarrow> Scanner \<Rightarrow> nat" where
  "count_msg m s = length (filter (\<lambda>e. snd e = m) (calls s))"

lemma emits_refl [simp, intro!]: "emits E s s"
  by (simp add: emits_def)

lemma emits_trans: "emits E s t \<Longrightarrow> emits E t u \<Longrightarrow> emits E s u"
  unfolding emits_def by auto

lemma emits_mono: "emits E s t \<Longrightarrow> E \<subseteq> E' \<Longrightarrow> emits E' s t"
  unfolding emits_def by blast

lemma emits_error: "(k, m) \<in> E \<Longrightarrow> emits E s (error s k m)"
  by (simp add: emits_def)

lemma next_errors_advance: "set (next_errors s) \<subseteq> advance_errors"
  by (auto simp: next_errors_def advance_errors_def)

lemma emits_next: "advance_errors \<subseteq> E \<Longrightarrow> emits E s (next_ch s)"
  using next_errors_advance [of s] by (auto simp: emits_def next_ch_calls)

named_theorems emits_intros

lemmas emits_next' [emits_intros] = emits_trans [OF _ emits_next]
lemmas emits_error' [emits_intros] = emits_trans [OF _ emits_error]

lemma emits_skipWhiteSpace: "advance_errors \<subseteq> E \<Longrightarrow> emits E s (skipWhiteSpace s)"
  by (induction s rule: skipWhiteSpace.induct)
     (subst skipWhiteSpace.simps, auto intro: emits_trans [OF emits_next])

lemma emits_scanIdentifier_loop:
  "advance_errors \<subseteq> E \<Longrightarrow> emits E s (scanIdentifier_loop U s)"
  by (induction U s rule: scanIdentifier_loop.induct)
     (subst scanIdentifier_loop.simps, auto intro: emits_trans [OF emits_next])

lemma emits_scanMantissa: "advance_errors \<subseteq> E \<Longrightarrow> emits E s (scanMantissa b s)"
  by (induction b s rule: scanMantissa.induct)
     (subst scanMantissa.simps, auto intro: emits_trans [OF emits_next])

lemma emits_scanComment_line: "advance_errors \<subseteq> E \<Longrightarrow> emits E s (scanComment_line s)"
  by (induction s rule: scanComment_line.induct)
     (subst scanComment_line.simps, auto intro: emits_trans [OF emits_next])

lemma emits_scanComment_block: "advance_errors \<subseteq> E \<Longrightarrow> emits E s (scanComment_block s)"
  by (induction s rule: scanComment_block.induct)
     (subst scanComment_block.simps, auto intro: emits_trans [OF emits_next] emits_intros)

lemmas emits_skipWhiteSpace' [emits_intros] = emits_trans [OF _ emits_skipWhiteSpace]
lemmas emits_scanMantissa' [emits_intros] = emits_trans [OF _ emits_scanMantissa]
lemmas emits_scanComment_line' [emits_intros] = emits_trans [OF _ emits_scanComment_line]
lemmas emits_scanComment_block' [emits_intros] = emits_trans [OF _ emits_scanComment_block]

lemma emits_scanComment: "advance_errors \<subseteq> E \<Longrightarrow> emits E s (scanComment s)"
  by (auto simp: scanComment_def intro!: emits_intros)

lemma emits_scanExponent: "advance_errors \<subseteq> E \<Longrightarrow> emits E s (fst (scanExponent s tok))"
  by (auto simp: scanExponent_def Let_def intro!: emits_intros)

lemmas emits_scanExponent' [emits_intros] = emits_trans [OF _ emits_scanExponent]

lemma emits_scanFraction: "advance_errors \<subseteq> E \<Longrightarrow> emits E s (fst (scanFraction s tok))"
  by (auto simp: scanFraction_def intro!: emits_intros)

lemmas emits_scanFraction' [emits_intros] = emits_trans [OF _ emits_scanFraction]

lemma emits_scanNumber:
  assumes "advance_errors \<subseteq> E" "(offset s, ''illegal hexadecimal number'') \<in> E"
    "(offset s, ''illegal octal number'') \<in> E"
  shows "emits E s (fst (scanNumber p s))"
  using assms by (auto simp: scanNumber_def Let_def case_prod_beta intro!: emits_intros)

lemma emits_scanEscape_digits:
  "advance_errors \<subseteq> E \<Longrightarrow> escape_errors U \<subseteq> E \<Longrightarrow> emits E s (fst (scanEscape_digits U n b s x))"
proof (induction n arbitrary: s x)
  case 0
  show ?case by simp
next
  case (Suc n)
  have "(offset s, ''escape sequence not terminated'') \<in> E"
    "(offset s, ''illegal character '' @ SprintfU U (ch s) @ '' in escape sequence'') \<in> E"
    using Suc.prems(2) by (auto simp: escape_errors_def)
  then show ?case
    using emits_trans [OF emits_next [OF Suc.prems(1)] Suc.IH [OF Suc.prems, of "next_ch s"]]
    by (simp add: Let_def emits_error)
qed

lemma emits_scanEscape_tail:
  assumes "advance_errors \<subseteq> E" "escape_errors U \<subseteq> E"
  shows "emits E s (fst (scanEscape_tail U k n b m s))"
proof -
  have "(k, ''escape sequence is invalid Unicode code point'') \<in> E"
    using assms(2) by (auto simp: escape_errors_def)
  then show ?thesis
    using emits_scanEscape_digits [OF assms, of s n b 0]
      emits_trans [OF emits_scanEscape_digits [OF assms, of s n b 0] emits_error]
    by (simp add: scanEscape_tail_def case_prod_beta split: option.splits)
qed

lemmas emits_scanEscape_tail' [emits_intros] = emits_trans [OF _ emits_scanEscape_tail]

lemma emits_scanEscape:
  assumes "advance_errors \<subseteq> E" "escape_errors U \<subseteq> E"
  shows "emits E s (fst (scanEscape U q s))"
proof -
  have "(offset s, ''escape sequence not terminated'') \<in> E"
    "(offset s, ''unknown escape sequence'') \<in> E"
    using assms(2) by (auto simp: escape_errors_def)
  then show ?thesis
    using assms by (auto simp: scanEscape_def Let_def intro!: emits_intros)
qed

lemma emits_count:
  assumes "emits E s t" "\<forall>k. (k, m) \<notin> E"
  shows "count_msg m t = count_msg m s"
proof -
  obtain new where new: "calls t = calls s @ new" "set new \<subseteq> E"
    using assms(1) by (auto simp: emits_def)
  have "snd e \<noteq> m" if "e \<in> set new" for e
    by (cases e) (use that new(2) assms(2) in auto)
  then have "filter (\<lambda>e. snd e = m) new = []"
    by (simp add: filter_empty_conv)
  then show ?thesis by (simp add: count_msg_def new(1))
qed


section \<open>Concrete inputs\<close>

text \<open>
  A file of \<open>n\<close> bytes registered first in its set (base 1), and a library for the
  examples: no letter or digit beyond ASCII, and a \<^verbatim>\<open>%#U\<close> that prints the code point
  in decimal between brackets.
\<close>

definition example_file :: "nat \<Rightarrow> File" where
  "example_file n = \<lparr>name = ''lib/main.zo'', base = 1, fsize = n, lines = [], infos = []\<rparr>"

definition example_lib :: stdlib where
  "example_lib =
     \<lparr>IsLetter = (\<lambda>c. False), IsDigit = (\<lambda>c. False), SprintfU = (\<lambda>c. ''U+...'')\<rparr>"

lemmas scanner_loops =
  skipWhiteSpace.simps scanIdentifier_loop.simps scanMantissa.simps
  scanComment_line.simps scanComment_block.simps scanString_loop.simps

lemmas scanner_defs =
  Init_def next_ch_def Split_def Let_def RuneSelf_def bom_def RuneError_def MaxRune_def
  Scan_def Scan_switch_def scanString_def scanComment_def scanNumber_def scanFraction_def
  scanExponent_def scanIdentifier_def isLetter_def isDigit_def digitVal_def error_def
  slice_def Pos_def Offset_of_def AddLine_def DecodeRune_def scanEscape_def scanEscape_tail_def
  string_of_rune_def illegal_character_def example_file_def example_lib_def
  char_of_def bit_iff_odd_drop_bit drop_bit_eq_div

section \<open>The error count\<close>

lemma adv_ScanAll: "adv s (ScanAll U s)"
  by (induction U s rule: ScanAll.induct)
     (subst ScanAll.simps, auto intro: adv_trans [OF adv_Scan])

lemma adv_Scan_n: "adv s (Scan_n U n s)"
  by (induction n) (auto intro: adv_trans [OF _ adv_Scan])

lemma adv_counted:
  "adv s t \<Longrightarrow> err s \<Longrightarrow> ErrorCount s = length (calls s) \<Longrightarrow> ErrorCount t = length (calls t)"
  by (auto simp: adv_def)

lemma adv_wf: "adv s t \<Longrightarrow> wf s \<Longrightarrow> wf t"
  by (simp add: adv_def)

lemma adv_src: "adv s t \<Longrightarrow> src t = src s"
  by (simp add: adv_def)

lemma strip_Scan_n: "Scan_n U n (strip s) = strip (Scan_n U n s)"
  by (induction n) (simp_all add: strip_Scan)

text \<open>
  C1. A source is scanned to the end of the file with a handler installed at \<^verbatim>\<open>Init\<close>:
  \<open>ErrorCount\<close> is then the number of invocations of the handler. Scanning the same
  source with no handler installed (\<open>strip s\<close> is what \<^verbatim>\<open>Init\<close> then returns) invokes
  nothing and ends with the same \<open>ErrorCount\<close>. Both also hold after any number \<open>n\<close> of
  calls of \<^verbatim>\<open>Scan\<close>.
\<close>

theorem ErrorCount_counts_calls:
  assumes "Init f src0 True = Some s"
  shows "ErrorCount (ScanAll U s) = length (calls (ScanAll U s)) \<and>
         Init f src0 False = Some (strip s) \<and>
         calls (ScanAll U (strip s)) = [] \<and>
         ErrorCount (ScanAll U (strip s)) = ErrorCount (ScanAll U s) \<and>
         (\<forall>n. ErrorCount (Scan_n U n s) = length (calls (Scan_n U n s)) \<and>
              ErrorCount (Scan_n U n (strip s)) = ErrorCount (Scan_n U n s))"
proof -
  have s: "err s" "ErrorCount s = length (calls s)"
    using Init_src [OF assms] Init_counted [OF assms] by simp_all
  then have "ErrorCount (ScanAll U s) = length (calls (ScanAll U s))"
    by (rule adv_counted [OF adv_ScanAll])
  moreover have "Init f src0 False = Some (strip s)"
    using assms by (simp add: strip_Init)
  moreover have "ErrorCount (Scan_n U n s) = length (calls (Scan_n U n s))" for n
    using s by (rule adv_counted [OF adv_Scan_n])
  ultimately show ?thesis by (simp add: strip_ScanAll strip_Scan_n)
qed

theorem ErrorCount_counts_calls_witness:
  "Init (example_file 6) [CHR ''@'', CHR 0x0A, CHR ''@'', CHR '' '', CHR ''@'', CHR 0x0A] True
     = Some \<lparr>file' = example_file 6, dir = ''lib/'',
             src = [CHR ''@'', CHR 0x0A, CHR ''@'', CHR '' '', CHR ''@'', CHR 0x0A],
             err = True, ch = 64, offset = 0, rdOffset = 1, ErrorCount = 0, calls = []\<rparr> \<and>
   ErrorCount (ScanAll example_lib
     \<lparr>file' = example_file 6, dir = ''lib/'',
      src = [CHR ''@'', CHR 0x0A, CHR ''@'', CHR '' '', CHR ''@'', CHR 0x0A],
      err = True, ch = 64, offset = 0, rdOffset = 1, ErrorCount = 0, calls = []\<rparr>) = 3 \<and>
   length (calls (ScanAll example_lib
     \<lparr>file' = example_file 6, dir = ''lib/'',
      src = [CHR ''@'', CHR 0x0A, CHR ''@'', CHR '' '', CHR ''@'', CHR 0x0A],
      err = True, ch = 64, offset = 0, rdOffset = 1, ErrorCount = 0, calls = []\<rparr>)) = 3 \<and>
   ErrorCount (ScanAll example_lib (strip
     \<lparr>file' = example_file 6, dir = ''lib/'',
      src = [CHR ''@'', CHR 0x0A, CHR ''@'', CHR '' '', CHR ''@'', CHR 0x0A],
      err = True, ch = 64, offset = 0, rdOffset = 1, ErrorCount = 0, calls = []\<rparr>)) = 3"
proof -
  let ?src = "[CHR ''@'', CHR 0x0A, CHR ''@'', CHR '' '', CHR ''@'', CHR 0x0A]"
  let ?s = "\<lparr>file' = example_file 6, dir = ''lib/'', src = ?src,
             err = True, ch = 64, offset = 0, rdOffset = 1, ErrorCount = 0, calls = []\<rparr>"
  have init: "Init (example_file 6) ?src True = Some ?s"
    by (simp add: scanner_defs)
  have run: "ErrorCount (ScanAll example_lib ?s) = 3"
    by (simp add: ScanAll.simps scanner_loops scanner_defs)
  from ErrorCount_counts_calls [OF init, of example_lib] init run show ?thesis by simp
qed

section \<open>Progress and termination\<close>

lemma wf_offset_le: "wf s \<Longrightarrow> offset s \<le> length (src s)"
  by (auto simp: wf_def split: if_splits)

lemma next_ch_at_EOF: "wf s \<Longrightarrow> ch s = -1 \<Longrightarrow> next_ch s = s"
  by (rule Scanner.equality)
     (simp_all add: wf_def next_ch_file next_ch_offset next_ch_rdOffset next_ch_ch next_ch_calls
        next_errors_def)

lemma Scan_at_EOF:
  assumes "wf s" "ch s = -1"
  shows "Scan U s = (s, Pos (file' s) (offset s), EOF, [])"
proof -
  have "skipWhiteSpace s = s" using assms(2) by (subst skipWhiteSpace.simps) simp
  then show ?thesis
    using assms
    by (simp add: Scan_def Let_def isLetter_def RuneSelf_def next_ch_at_EOF Scan_switch_def)
qed

lemma Scan_EOF_state:
  assumes "wf s" "fst (snd (snd (Scan U s))) = EOF"
  shows "ch (fst (Scan U s)) = -1"
proof -
  let ?t = "skipWhiteSpace s"
  have c: "ch ?t = -1" using assms(2) by (simp add: Scan_EOF)
  have w: "wf ?t" by (rule adv_wf [OF adv_skipWhiteSpace assms(1)])
  have "fst (Scan U s) = next_ch ?t"
    using c by (simp add: Scan_def Let_def isLetter_def RuneSelf_def Scan_switch_def)
  then show ?thesis using c w by (simp add: next_ch_at_EOF)
qed

lemma Scan_n_offset:
  assumes "wf s" "\<forall>k<n. fst (snd (snd (Scan U (Scan_n U k s)))) \<noteq> EOF"
  shows "n + offset s \<le> offset (Scan_n U n s)"
  using assms(2)
proof (induction n)
  case 0
  show ?case by simp
next
  case (Suc n)
  have "sadv (Scan_n U n s) (fst (Scan U (Scan_n U n s)))"
    using Suc.prems by (intro sadv_Scan) simp
  moreover have "wf (Scan_n U n s)" by (rule adv_wf [OF adv_Scan_n assms(1)])
  ultimately have "offset (Scan_n U n s) < offset (Scan_n U (Suc n) s)"
    by (simp add: sadv_def)
  with Suc show ?case by simp
qed

lemma Scan_reaches_EOF:
  assumes "wf s"
  shows "\<exists>n\<le>length (src s). fst (snd (snd (Scan U (Scan_n U n s)))) = EOF"
proof (rule ccontr)
  assume "\<not> ?thesis"
  then have "\<forall>k<Suc (length (src s)). fst (snd (snd (Scan U (Scan_n U k s)))) \<noteq> EOF"
    by (simp add: less_Suc_eq_le)
  from Scan_n_offset [OF assms this]
  have "Suc (length (src s)) \<le> offset (Scan_n U (Suc (length (src s))) s)" by simp
  moreover have "offset (Scan_n U (Suc (length (src s))) s) \<le> length (src s)"
    using wf_offset_le [OF adv_wf [OF adv_Scan_n assms], of U "Suc (length (src s))"]
      adv_src [OF adv_Scan_n [of s U "Suc (length (src s))"]] by simp
  ultimately show False by simp
qed

lemma Scan_n_after_EOF:
  assumes "wf s" "fst (snd (snd (Scan U (Scan_n U n s)))) = EOF"
  shows "fst (snd (snd (Scan U (Scan_n U (n + k) s)))) = EOF \<and>
         Scan_n U (Suc (n + k)) s = Scan_n U (Suc n) s"
proof (induction k)
  case 0
  show ?case using assms(2) by simp
next
  case (Suc k)
  let ?t = "Scan_n U (Suc n) s"
  have w: "wf ?t" by (rule adv_wf [OF adv_Scan_n assms(1)])
  have c: "ch ?t = -1"
    using Scan_EOF_state [OF adv_wf [OF adv_Scan_n assms(1)] assms(2)] by simp
  have "Scan U ?t = (?t, Pos (file' ?t) (offset ?t), EOF, [])" by (rule Scan_at_EOF [OF w c])
  then show ?case using Suc by simp
qed

text \<open>
  C2, as amended. The scanner is initialised on a source and \<^verbatim>\<open>Scan\<close> is called again and
  again. A call that does not return \<open>EOF\<close> consumes at least one character: it strictly
  advances \<open>offset\<close>, the offset of the current character, which stays within the source;
  the reading offset \<open>rdOffset\<close> never moves back. One of the first \<open>length src0 + 1\<close>
  calls returns \<open>EOF\<close>. After a call that returned \<open>EOF\<close>, every further call returns
  \<open>EOF\<close> and leaves the scanner as it is, error count and invocations included.
\<close>

theorem Scan_progress:
  assumes "Init f src0 h = Some s0"
  shows "(\<forall>n. fst (snd (snd (Scan U (Scan_n U n s0)))) \<noteq> EOF \<longrightarrow>
            offset (Scan_n U n s0) < offset (Scan_n U (Suc n) s0) \<and>
            rdOffset (Scan_n U n s0) \<le> rdOffset (Scan_n U (Suc n) s0) \<and>
            offset (Scan_n U (Suc n) s0) \<le> length src0) \<and>
         (\<exists>n\<le>length src0. fst (snd (snd (Scan U (Scan_n U n s0)))) = EOF) \<and>
         (\<forall>n k. fst (snd (snd (Scan U (Scan_n U n s0)))) = EOF \<longrightarrow>
            fst (snd (snd (Scan U (Scan_n U (n + k) s0)))) = EOF \<and>
            Scan_n U (Suc (n + k)) s0 = Scan_n U (Suc n) s0)"
proof -
  have w: "wf s0" by (rule Init_wf [OF assms])
  have s: "src s0 = src0" using Init_src [OF assms] by simp
  have wn: "wf (Scan_n U n s0)" for n by (rule adv_wf [OF adv_Scan_n w])
  have 1: "offset (Scan_n U n s0) < offset (Scan_n U (Suc n) s0) \<and>
           rdOffset (Scan_n U n s0) \<le> rdOffset (Scan_n U (Suc n) s0) \<and>
           offset (Scan_n U (Suc n) s0) \<le> length src0"
    if "fst (snd (snd (Scan U (Scan_n U n s0)))) \<noteq> EOF" for n
    using sadv_Scan [OF that] wn [of n] wf_offset_le [OF wn [of "Suc n"]]
      adv_src [OF adv_Scan_n [of s0 U "Suc n"]] s
    by (simp add: sadv_def adv_def)
  show ?thesis
    using 1 Scan_reaches_EOF [OF w, of U] Scan_n_after_EOF [OF w, of U] s by simp
qed

theorem Scan_progress_witness:
  "Init (example_file 1) ''a'' True
     = Some \<lparr>file' = example_file 1, dir = ''lib/'', src = ''a'', err = True, ch = 97,
             offset = 0, rdOffset = 1, ErrorCount = 0, calls = []\<rparr> \<and>
   fst (snd (snd (Scan example_lib (Scan_n example_lib 0
     \<lparr>file' = example_file 1, dir = ''lib/'', src = ''a'', err = True, ch = 97,
      offset = 0, rdOffset = 1, ErrorCount = 0, calls = []\<rparr>)))) = IDENT \<and>
   offset (Scan_n example_lib 0
     \<lparr>file' = example_file 1, dir = ''lib/'', src = ''a'', err = True, ch = 97,
      offset = 0, rdOffset = 1, ErrorCount = 0, calls = []\<rparr>) = 0 \<and>
   offset (Scan_n example_lib (Suc 0)
     \<lparr>file' = example_file 1, dir = ''lib/'', src = ''a'', err = True, ch = 97,
      offset = 0, rdOffset = 1, ErrorCount = 0, calls = []\<rparr>) = 1 \<and>
   fst (snd (snd (Scan example_lib (Scan_n example_lib (Suc 0)
     \<lparr>file' = example_file 1, dir = ''lib/'', src = ''a'', err = True, ch = 97,
      offset = 0, rdOffset = 1, ErrorCount = 0, calls = []\<rparr>)))) = EOF \<and>
   Scan_n example_lib (Suc (Suc 0 + 2))
     \<lparr>file' = example_file 1, dir = ''lib/'', src = ''a'', err = True, ch = 97,
      offset = 0, rdOffset = 1, ErrorCount = 0, calls = []\<rparr>
   = Scan_n example_lib (Suc (Suc 0))
     \<lparr>file' = example_file 1, dir = ''lib/'', src = ''a'', err = True, ch = 97,
      offset = 0, rdOffset = 1, ErrorCount = 0, calls = []\<rparr>"
proof -
  let ?s = "\<lparr>file' = example_file 1, dir = ''lib/'', src = ''a'', err = True, ch = 97,
             offset = 0, rdOffset = 1, ErrorCount = 0, calls = []\<rparr>"
  have init: "Init (example_file 1) ''a'' True = Some ?s"
    by (simp add: scanner_defs)
  have run: "Scan example_lib ?s
      = (\<lparr>file' = example_file 1, dir = ''lib/'', src = ''a'', err = True, ch = -1,
          offset = 1, rdOffset = 1, ErrorCount = 0, calls = []\<rparr>, 1, IDENT, ''a'')"
    by (simp add: scanner_loops scanner_defs)
  have eof: "fst (snd (snd (Scan example_lib (Scan_n example_lib (Suc 0) ?s)))) = EOF"
    by (simp add: run) (simp add: scanner_loops scanner_defs)
  from Scan_progress [OF init, of example_lib] have
    "fst (snd (snd (Scan example_lib (Scan_n example_lib (Suc 0) ?s)))) = EOF \<longrightarrow>
     Scan_n example_lib (Suc (Suc 0 + 2)) ?s = Scan_n example_lib (Suc (Suc 0)) ?s"
    by blast
  with eof init run show ?thesis by simp
qed

text \<open>
  C2 as stated fails for the reading offset: on the source \<open>a\<close> the first call returns
  the identifier and leaves \<open>rdOffset\<close> at 1, the end of the source, where \<^verbatim>\<open>Init\<close> had put
  it.
\<close>

theorem Scan_rdOffset_counterexample:
  "Init (example_file 1) ''a'' True
     = Some \<lparr>file' = example_file 1, dir = ''lib/'', src = ''a'', err = True, ch = 97,
             offset = 0, rdOffset = 1, ErrorCount = 0, calls = []\<rparr> \<and>
   fst (snd (snd (Scan example_lib
     \<lparr>file' = example_file 1, dir = ''lib/'', src = ''a'', err = True, ch = 97,
      offset = 0, rdOffset = 1, ErrorCount = 0, calls = []\<rparr>))) = IDENT \<and>
   IDENT \<noteq> EOF \<and>
   rdOffset (fst (Scan example_lib
     \<lparr>file' = example_file 1, dir = ''lib/'', src = ''a'', err = True, ch = 97,
      offset = 0, rdOffset = 1, ErrorCount = 0, calls = []\<rparr>)) = 1"
  by (simp add: scanner_loops scanner_defs)

section \<open>Numbers with a leading zero\<close>

lemma skipWhiteSpace_id: "ch s \<noteq> 32 \<Longrightarrow> ch s \<noteq> 9 \<Longrightarrow> ch s \<noteq> 10 \<Longrightarrow> ch s \<noteq> 13 \<Longrightarrow> skipWhiteSpace s = s"
  by (subst skipWhiteSpace.simps) simp

lemma octal_not_advance: "(k, ''illegal octal number'') \<notin> advance_errors"
  by (simp add: advance_errors_def)

lemma Scan_octal_digits:
  assumes "ch s = 48"
    and "ch (next_ch s) \<noteq> 120" "ch (next_ch s) \<noteq> 88"
    and "ch (scanMantissa 8 (next_ch s)) = 56 \<or> ch (scanMantissa 8 (next_ch s)) = 57"
  shows "if ch (scanMantissa 10 (scanMantissa 8 (next_ch s))) = 46
          \<or> ch (scanMantissa 10 (scanMantissa 8 (next_ch s))) = 101
          \<or> ch (scanMantissa 10 (scanMantissa 8 (next_ch s))) = 69
         then fst (snd (snd (Scan U s))) = FLOAT \<and>
              count_msg ''illegal octal number'' (fst (Scan U s))
                = count_msg ''illegal octal number'' s
         else fst (snd (snd (Scan U s))) = INT' \<and>
              fst (Scan U s)
                = error (scanMantissa 10 (scanMantissa 8 (next_ch s))) (offset s)
                    ''illegal octal number'' \<and>
              count_msg ''illegal octal number'' (fst (Scan U s))
                = count_msg ''illegal octal number'' s + (if err s then 1 else 0)"
proof -
  let ?s3 = "scanMantissa 10 (scanMantissa 8 (next_ch s))"
  have sk: "skipWhiteSpace s = s" using assms(1) by (simp add: skipWhiteSpace_id)
  have S: "Scan U s = (fst (scanNumber False s), Pos (file' s) (offset s), snd (scanNumber False s))"
    using assms(1) by (simp add: Scan_def sk isLetter_def RuneSelf_def case_prod_beta)
  have e3: "emits advance_errors s ?s3"
    by (intro emits_intros emits_refl) simp_all
  have c3: "count_msg ''illegal octal number'' ?s3 = count_msg ''illegal octal number'' s"
    by (rule emits_count [OF e3]) (simp add: octal_not_advance)
  show ?thesis
  proof (cases "ch ?s3 = 46 \<or> ch ?s3 = 101 \<or> ch ?s3 = 69")
    case True
    have n: "scanNumber False s
        = (fst (scanFraction ?s3 INT'), snd (scanFraction ?s3 INT'),
           slice (src (fst (scanFraction ?s3 INT'))) (offset s) (offset (fst (scanFraction ?s3 INT'))))"
      using assms True by (simp add: scanNumber_def Let_def case_prod_beta)
    have t: "snd (scanFraction ?s3 INT') = FLOAT"
      using True scanExponent_tok [of "scanMantissa 10 (next_ch ?s3)" FLOAT]
      by (auto simp: scanFraction_def scanExponent_def Let_def)
    have "emits advance_errors s (fst (scanFraction ?s3 INT'))"
      by (intro emits_intros emits_refl) simp_all
    then have "count_msg ''illegal octal number'' (fst (scanFraction ?s3 INT'))
        = count_msg ''illegal octal number'' s"
      by (rule emits_count) (simp add: octal_not_advance)
    then show ?thesis using True t by (simp add: S n)
  next
    case False
    have n: "scanNumber False s
        = (error ?s3 (offset s) ''illegal octal number'', INT',
           slice (src ?s3) (offset s) (offset ?s3))"
      using assms False by (simp add: scanNumber_def Let_def case_prod_beta)
    have "count_msg ''illegal octal number'' (error ?s3 (offset s) ''illegal octal number'')
        = count_msg ''illegal octal number'' s + (if err s then 1 else 0)"
      using c3 adv_scanMantissa' [OF adv_scanMantissa' [OF adv_next, of s 8], of 10]
      by (simp add: count_msg_def adv_def)
    then show ?thesis using False by (simp add: S n)
  qed
qed





section \<open>The bytes of a character\<close>

lemma wf_ascii:
  "wf s \<Longrightarrow> 0 \<le> ch s \<Longrightarrow> ch s < 0x80 \<Longrightarrow>
   rdOffset s = offset s + 1 \<and> (of_char (src s ! offset s) :: int) = ch s \<and> offset s < length (src s)"
  by (auto simp: wf_def split: if_splits)


lemma adv_offset: "adv s t \<Longrightarrow> wf s \<Longrightarrow> offset s \<le> offset t"
  by (simp add: adv_def)

lemma next_ch_after_ascii:
  assumes "wf s" "0 \<le> ch s" "ch s < 0x80"
  shows "offset (next_ch s) = offset s + 1"
proof -
  have "rdOffset s = offset s + 1" using wf_ascii [OF assms] by simp
  moreover have "rdOffset s \<le> length (src s)" using assms(1) by (simp add: wf_def)
  ultimately show ?thesis by (simp add: next_ch_offset)
qed

text \<open>
  \<open>enc s\<close>: when the current character is not an ASCII character, none of the bytes it was
  decoded from, those from \<open>offset\<close> up to \<open>rdOffset\<close>, is an ASCII byte. It holds after
  every call of \<^verbatim>\<open>next\<close>.
\<close>

definition enc :: "Scanner \<Rightarrow> bool" where
  "enc s \<longleftrightarrow>
     (0x80 \<le> ch s \<longrightarrow>
        (\<forall>j. offset s \<le> j \<and> j < rdOffset s \<longrightarrow> (0x80::int) \<le> of_char (src s ! j)))"

lemma of_char_int: "(of_char c :: int) = int (of_char c)"
  by (simp add: of_char_def)

lemma DecodeRune_ascii:
  "p \<noteq> [] \<Longrightarrow> (of_char (p ! 0) :: nat) < 0x80 \<Longrightarrow> DecodeRune p = (int (of_char (p ! 0)), 1)"
  by (simp add: DecodeRune_def)

lemma DecodeRune_bytes:
  assumes "p \<noteq> []" "(0x80::nat) \<le> of_char (p ! 0)" "i < snd (DecodeRune p)"
  shows "(0x80::nat) \<le> of_char (p ! i)"
proof -
  have "i = 0 \<or> i = 1 \<or> i = 2 \<or> i = 3"
    using assms(3) by (auto simp: DecodeRune_def Let_def split: if_splits)
  then show ?thesis
    using assms by (auto simp: DecodeRune_def Let_def split: if_splits)
qed

lemma enc_next [simp]: "enc (next_ch s)"
proof (cases "rdOffset s < length (src s) \<and> RuneSelf \<le> of_char (src s ! rdOffset s)")
  case True
  let ?p = "drop (rdOffset s) (src s)"
  have p: "?p \<noteq> []" "(0x80::nat) \<le> of_char (?p ! 0)"
    using True by (simp_all add: RuneSelf_def of_char_int)
  have "(0x80::int) \<le> of_char (src s ! j)"
    if "rdOffset s \<le> j" "j < rdOffset s + snd (DecodeRune ?p)" for j
  proof -
    have "j - rdOffset s < snd (DecodeRune ?p)" using that by simp
    from DecodeRune_bytes [OF p this] have "(0x80::nat) \<le> of_char (src s ! j)"
      using that True by simp
    then show ?thesis by (simp add: of_char_int)
  qed
  then show ?thesis
    using True by (simp add: enc_def next_ch_offset next_ch_rdOffset)
next
  case False
  then show ?thesis
    by (auto simp: enc_def next_ch_ch RuneSelf_def)
qed

lemma enc_error [simp]: "enc (error s k m) = enc s"
  by (simp add: enc_def)

lemma enc_ascii: "ch s < 0x80 \<Longrightarrow> enc s"
  by (simp add: enc_def)

lemma wf_next_offset: "wf s \<Longrightarrow> offset (next_ch s) = rdOffset s"
  by (simp add: next_ch_offset wf_def)

text \<open>
  The bytes of the current character: the character itself when it is an ASCII character,
  bytes from \<open>0x80\<close> on otherwise.
\<close>

lemma current_bytes:
  assumes "wf s" "enc s" "0 \<le> ch s" "offset s \<le> j" "j < rdOffset s"
  shows "j < length (src s) \<and>
         (if ch s < 0x80 then (of_char (src s ! j) :: int) = ch s
          else (0x80::int) \<le> of_char (src s ! j))"
proof (cases "ch s < 0x80")
  case True
  then show ?thesis
    using wf_ascii [OF assms(1,3) True] assms(4,5) by (simp add: le_less_Suc_eq)
next
  case False
  then show ?thesis
    using assms by (auto simp: enc_def wf_def)
qed

section \<open>The errors of a scan and their offsets\<close>

text \<open>
  The errors \<^verbatim>\<open>next\<close> reports for the source \<open>bs\<close>, each with the offset \<open>k\<close> of the character
  that is at fault: a NUL byte, a byte sequence that is not a UTF-8 encoding, a byte order
  mark that is not at the beginning. \<open>read_errors_in bs a b\<close> are those with an offset from
  \<open>a\<close> up to \<open>b\<close>, \<open>b\<close> excluded.
\<close>

definition read_errors :: "string \<Rightarrow> (nat \<times> string) set" where
  "read_errors bs =
     {(k, m). k < length bs \<and>
        (m = ''illegal character NUL'' \<and> (of_char (bs ! k) :: int) = 0
         \<or> m = ''illegal UTF-8 encoding'' \<and> DecodeRune (drop k bs) = (RuneError, 1)
         \<or> m = ''illegal byte order mark'' \<and> 0 < k \<and> fst (DecodeRune (drop k bs)) = bom)}"

definition read_errors_in :: "string \<Rightarrow> nat \<Rightarrow> nat \<Rightarrow> (nat \<times> string) set" where
  "read_errors_in bs a b = {(k, m). (k, m) \<in> read_errors bs \<and> a \<le> k \<and> k < b}"

text \<open>
  The errors \<^verbatim>\<open>Scan\<close> reports at the offset of the token that begins in the state \<open>t\<close>.
\<close>

definition token_errors :: "stdlib \<Rightarrow> Scanner \<Rightarrow> (nat \<times> string) set" where
  "token_errors U t =
     {(k, m). k = offset t \<and>
        (m = ''illegal hexadecimal number'' \<or> m = ''illegal octal number''
         \<or> m = ''string literal not terminated'' \<or> m = illegal_character U (ch t))}"

text \<open>
  \<open>reports E s t\<close>: from \<open>s\<close> to \<open>t\<close> the source stays, the reading offset does not go
  back, and every new call of the handler is an error of \<open>E\<close> or an error of reading one of
  the characters read on the way, those from the reading offset of \<open>s\<close> up to that of \<open>t\<close>.
\<close>

definition reports :: "(nat \<times> string) set \<Rightarrow> Scanner \<Rightarrow> Scanner \<Rightarrow> bool" where
  "reports E s t \<longleftrightarrow>
     src t = src s \<and> rdOffset s \<le> rdOffset t \<and>
     (\<exists>new. calls t = calls s @ new \<and>
            set new \<subseteq> read_errors_in (src s) (rdOffset s) (rdOffset t) \<union> E)"

lemma read_errors_in_mono:
  "a' \<le> a \<Longrightarrow> b \<le> b' \<Longrightarrow> read_errors_in bs a b \<subseteq> read_errors_in bs a' b'"
  by (auto simp: read_errors_in_def)

lemma read_errors_at:
  "read_errors_in bs a (a + 1) =
     {(k, m). k = a \<and> a < length bs \<and>
        (m = ''illegal character NUL'' \<and> (of_char (bs ! a) :: int) = 0
         \<or> m = ''illegal UTF-8 encoding'' \<and> DecodeRune (drop a bs) = (RuneError, 1)
         \<or> m = ''illegal byte order mark'' \<and> 0 < a \<and> fst (DecodeRune (drop a bs)) = bom)}"
proof -
  have e: "a \<le> k \<and> k < a + 1 \<longleftrightarrow> k = a" for k by auto
  show ?thesis
    unfolding read_errors_in_def read_errors_def mem_Collect_eq prod.case conj_assoc e
    by auto
qed

lemma next_errors_exact:
  "set (next_errors s) = read_errors_in (src s) (rdOffset s) (rdOffset s + 1)"
  "length (next_errors s) \<le> 1"
proof -
  let ?k = "rdOffset s" and ?p = "drop (rdOffset s) (src s)"
  show "length (next_errors s) \<le> 1" by (simp add: next_errors_def)
  show "set (next_errors s) = read_errors_in (src s) ?k (?k + 1)"
  proof (cases "?k < length (src s)")
    case False
    then show ?thesis unfolding read_errors_at by (auto simp: next_errors_def)
  next
    case lt: True
    show ?thesis
    proof (cases "(of_char (src s ! ?k) :: nat) < 0x80")
      case True
      then have "DecodeRune ?p = (of_char (src s ! ?k), 1)"
        using lt DecodeRune_ascii [of ?p] by (simp add: of_char_int)
      moreover have "(of_char (src s ! ?k) :: int) < 0x80"
        using True by (simp add: of_char_int)
      ultimately show ?thesis
        using lt unfolding read_errors_at
        by (auto simp: next_errors_def RuneSelf_def RuneError_def bom_def)
    next
      case False
      then have "(0x80 :: int) \<le> of_char (src s ! ?k)" by (simp add: of_char_int)
      then show ?thesis
        using lt unfolding read_errors_at
        by (auto simp: next_errors_def RuneSelf_def RuneError_def bom_def)
    qed
  qed
qed

lemma reports_refl [simp, intro!]: "reports E s s"
  by (simp add: reports_def)

lemma reports_trans:
  assumes "reports E s t" "reports E t u"
  shows "reports E s u"
proof -
  obtain n1 where 1: "src t = src s" "rdOffset s \<le> rdOffset t" "calls t = calls s @ n1"
    "set n1 \<subseteq> read_errors_in (src s) (rdOffset s) (rdOffset t) \<union> E"
    using assms(1) by (auto simp: reports_def)
  obtain n2 where 2: "src u = src t" "rdOffset t \<le> rdOffset u" "calls u = calls t @ n2"
    "set n2 \<subseteq> read_errors_in (src t) (rdOffset t) (rdOffset u) \<union> E"
    using assms(2) by (auto simp: reports_def)
  have "set n1 \<subseteq> read_errors_in (src s) (rdOffset s) (rdOffset u) \<union> E"
    using 1(4) read_errors_in_mono [of "rdOffset s" "rdOffset s" "rdOffset t" "rdOffset u" "src s"]
      2(2) by auto
  moreover have "set n2 \<subseteq> read_errors_in (src s) (rdOffset s) (rdOffset u) \<union> E"
    using 2(4) read_errors_in_mono [of "rdOffset s" "rdOffset t" "rdOffset u" "rdOffset u" "src s"]
      1(1,2) by auto
  ultimately show ?thesis
    using 1 2 by (simp add: reports_def)
qed

lemma reports_mono: "reports E s t \<Longrightarrow> E \<subseteq> E' \<Longrightarrow> reports E' s t"
  unfolding reports_def by blast

lemma reports_error: "(k, m) \<in> E \<Longrightarrow> reports E s (error s k m)"
  by (simp add: reports_def)

lemma reports_next: "reports E s (next_ch s)"
proof (cases "rdOffset s < length (src s)")
  case True
  then have "rdOffset s + 1 \<le> rdOffset (next_ch s)"
    using DecodeRune_width [of "drop (rdOffset s) (src s)"] by (simp add: next_ch_rdOffset)
  then have "set (next_errors s) \<subseteq> read_errors_in (src s) (rdOffset s) (rdOffset (next_ch s))"
    using read_errors_in_mono [of "rdOffset s" "rdOffset s" "rdOffset s + 1"
        "rdOffset (next_ch s)" "src s"]
    by (simp add: next_errors_exact(1))
  then show ?thesis
    by (auto simp: reports_def next_ch_calls next_ch_rdOffset)
next
  case False
  then show ?thesis
    by (simp add: reports_def next_ch_calls next_ch_rdOffset next_errors_def)
qed

named_theorems reports_intros

lemmas reports_next' [reports_intros] = reports_trans [OF _ reports_next]
lemmas reports_error' [reports_intros] = reports_trans [OF _ reports_error]

lemma reports_skipWhiteSpace: "reports E s (skipWhiteSpace s)"
  by (induction s rule: skipWhiteSpace.induct)
     (subst skipWhiteSpace.simps, auto intro: reports_trans [OF reports_next])

lemma reports_scanIdentifier_loop: "reports E s (scanIdentifier_loop U s)"
  by (induction U s rule: scanIdentifier_loop.induct)
     (subst scanIdentifier_loop.simps, auto intro: reports_trans [OF reports_next])

lemma reports_scanMantissa: "reports E s (scanMantissa b s)"
  by (induction b s rule: scanMantissa.induct)
     (subst scanMantissa.simps, auto intro: reports_trans [OF reports_next])

lemma reports_scanComment_line: "reports E s (scanComment_line s)"
  by (induction s rule: scanComment_line.induct)
     (subst scanComment_line.simps, auto intro: reports_trans [OF reports_next])

lemma reports_scanComment_block: "reports E s (scanComment_block s)"
  by (induction s rule: scanComment_block.induct)
     (subst scanComment_block.simps, auto intro: reports_trans [OF reports_next] reports_intros)

lemmas reports_scanMantissa' [reports_intros] = reports_trans [OF _ reports_scanMantissa]
lemmas reports_scanComment_line' [reports_intros] = reports_trans [OF _ reports_scanComment_line]
lemmas reports_scanComment_block' [reports_intros] = reports_trans [OF _ reports_scanComment_block]

lemma reports_scanComment: "reports E s (scanComment s)"
  by (auto simp: scanComment_def intro!: reports_intros)

lemma reports_scanExponent: "reports E s (fst (scanExponent s tok))"
  by (auto simp: scanExponent_def Let_def intro!: reports_intros)

lemmas reports_scanExponent' [reports_intros] = reports_trans [OF _ reports_scanExponent]

lemma reports_scanFraction: "reports E s (fst (scanFraction s tok))"
  by (auto simp: scanFraction_def intro!: reports_intros)

lemmas reports_scanFraction' [reports_intros] = reports_trans [OF _ reports_scanFraction]

lemma reports_scanNumber:
  assumes "(offset s, ''illegal hexadecimal number'') \<in> E"
    "(offset s, ''illegal octal number'') \<in> E"
  shows "reports E s (fst (scanNumber p s))"
  using assms by (auto simp: scanNumber_def Let_def case_prod_beta intro!: reports_intros)

lemma reports_scanEscape_digits:
  "escape_errors U \<subseteq> E \<Longrightarrow> reports E s (fst (scanEscape_digits U n b s x))"
proof (induction n arbitrary: s x)
  case 0
  show ?case by simp
next
  case (Suc n)
  have "(offset s, ''escape sequence not terminated'') \<in> E"
    "(offset s, ''illegal character '' @ SprintfU U (ch s) @ '' in escape sequence'') \<in> E"
    using Suc.prems by (auto simp: escape_errors_def)
  then show ?case
    using reports_trans [OF reports_next Suc.IH [OF Suc.prems, of "next_ch s"]]
    by (simp add: Let_def reports_error)
qed

lemma reports_scanEscape_tail:
  assumes "escape_errors U \<subseteq> E"
  shows "reports E s (fst (scanEscape_tail U k n b m s))"
proof -
  have "(k, ''escape sequence is invalid Unicode code point'') \<in> E"
    using assms by (auto simp: escape_errors_def)
  then show ?thesis
    using reports_scanEscape_digits [OF assms, of s n b 0]
      reports_trans [OF reports_scanEscape_digits [OF assms, of s n b 0] reports_error]
    by (simp add: scanEscape_tail_def case_prod_beta split: option.splits)
qed

lemmas reports_scanEscape_tail' [reports_intros] = reports_trans [OF _ reports_scanEscape_tail]

lemma reports_scanEscape:
  assumes "escape_errors U \<subseteq> E"
  shows "reports E s (fst (scanEscape U q s))"
proof -
  have "(offset s, ''escape sequence not terminated'') \<in> E"
    "(offset s, ''unknown escape sequence'') \<in> E"
    using assms by (auto simp: escape_errors_def)
  then show ?thesis
    using assms by (auto simp: scanEscape_def Let_def intro!: reports_intros)
qed

lemma reports_scanString_loop:
  "escape_errors U \<subseteq> E \<Longrightarrow> (k, ''string literal not terminated'') \<in> E \<Longrightarrow>
   reports E s (scanString_loop U q k s)"
proof (induction U q k s rule: scanString_loop.induct)
  case (1 U quote offs s)
  have n: "reports E s (next_ch s)" by (rule reports_next)
  have x: "reports E s (fst (scanEscape U quote (next_ch s)))"
    by (rule reports_trans [OF n reports_scanEscape [OF "1.prems"(1)]])
  show ?case
  proof (cases "ch s = 10 \<or> ch s < 0")
    case True
    then show ?thesis
      using "1.prems"(2) by (subst scanString_loop.simps) (simp add: reports_error)
  next
    case a: False
    show ?thesis
    proof (cases "ch s = quote")
      case True
      then show ?thesis
        using a n by (subst scanString_loop.simps) simp
    next
      case b: False
      show ?thesis
      proof (cases "ch s = 92")
        case True
        then show ?thesis
          using a b reports_trans [OF x "1.IH"(1) [OF a b True "1.prems"]]
          by (subst scanString_loop.simps) simp
      next
        case False
        then show ?thesis
          using a b reports_trans [OF n "1.IH"(2) [OF a b False "1.prems"]]
          by (subst scanString_loop.simps) simp
      qed
    qed
  qed
qed

lemma Offset_of_Pos: "base f = base g \<Longrightarrow> Offset_of f (Pos g k) = k"
  by (simp add: Offset_of_def Pos_def)

lemma reports_Scan_switch:
  assumes "wf t"
  shows "reports (escape_errors U \<union> token_errors U t) t
           (fst (Scan_switch U (ch t) (Pos (file' t) (offset t)) (next_ch t)))"
proof -
  let ?E = "escape_errors U \<union> token_errors U t" and ?n = "next_ch t"
  define c where "c = ch t"
  have n: "reports ?E t ?n" by (rule reports_next)
  have ill: "reports ?E t (error ?n (offset t) (illegal_character U c'))" if "c' = c" for c'
    by (rule reports_trans [OF n reports_error]) (simp add: token_errors_def c_def that)
  have num: "reports ?E t (fst (scanNumber True ?n))"
    by (rule reports_trans [OF n])
       (auto simp: scanNumber_def Let_def case_prod_beta intro!: reports_intros)
  have com: "reports ?E t (scanComment ?n)"
    by (rule reports_trans [OF n reports_scanComment])
  have nn: "reports ?E t (next_ch ?n)"
    by (rule reports_trans [OF n reports_next])
  have str: "reports ?E t (scanString_loop U q (offset t) ?n)" for q
    using reports_trans [OF n reports_scanString_loop [of U ?E "offset t" ?n q]]
    by (simp add: token_errors_def)
  have o: "offset ?n - Suc 0 = offset t" if "c = 34 \<or> c = 39"
    using next_ch_after_ascii [OF assms] that by (auto simp: c_def)
  have "reports ?E t (fst (Scan_switch U c (Pos (file' t) (offset t)) ?n))"
    by (simp add: Scan_switch_def scanString_def Let_def Offset_of_Pos bom_def
          n ill num com nn str o)
  then show ?thesis by (simp add: c_def)
qed

lemma reports_Scan:
  assumes "wf s"
  shows "reports (escape_errors U \<union> token_errors U (skipWhiteSpace s)) s (fst (Scan U s))"
proof -
  let ?t = "skipWhiteSpace s"
  let ?E = "escape_errors U \<union> token_errors U ?t"
  have t: "reports ?E s ?t" by (rule reports_skipWhiteSpace)
  have w: "wf ?t" by (rule adv_wf [OF adv_skipWhiteSpace assms])
  have i: "reports ?E s (scanIdentifier_loop U ?t)"
    by (rule reports_trans [OF t reports_scanIdentifier_loop])
  have n: "reports ?E s (fst (scanNumber False ?t))"
    by (rule reports_trans [OF t reports_scanNumber]) (simp_all add: token_errors_def)
  have x: "reports ?E s (fst (Scan_switch U (ch ?t) (Pos (file' ?t) (offset ?t)) (next_ch ?t)))"
    by (rule reports_trans [OF t reports_Scan_switch [OF w]])
  show ?thesis
    using i n x by (simp add: Scan_def Let_def scanIdentifier_def case_prod_beta)
qed


section \<open>Comments\<close>











section \<open>Byte order marks\<close>

text \<open>The UTF-8 encoding of the byte order mark \<open>U+FEFF\<close>.\<close>

definition bom_bytes :: string where
  "bom_bytes = [CHR 0xEF, CHR 0xBB, CHR 0xBF]"

lemma DecodeRune_bom: "take 3 p = bom_bytes \<Longrightarrow> DecodeRune p = (bom, 3)"
proof -
  assume a: "take 3 p = bom_bytes"
  have "p = bom_bytes @ drop 3 p" using append_take_drop_id [of 3 p] a by simp
  then obtain r where "p = CHR 0xEF # CHR 0xBB # CHR 0xBF # r" by (simp add: bom_bytes_def)
  then show ?thesis by (simp add: DecodeRune_def bom_def)
qed

lemma string_of_bom: "string_of_rune bom = bom_bytes"
  by (simp add: string_of_rune_def bom_def bom_bytes_def MaxRune_def Let_def
        char_of_def bit_iff_odd_drop_bit drop_bit_eq_div)

lemma Init_bom:
  assumes "fsize f = length rest + 3"
  shows "Init f (bom_bytes @ rest) h
    = Some (next_ch \<lparr>file' = f, dir = fst (Split (name f)), src = bom_bytes @ rest, err = h,
                     ch = bom, offset = 0, rdOffset = 3, ErrorCount = 0, calls = []\<rparr>)"
proof -
  let ?s = "\<lparr>file' = f, dir = fst (Split (name f)), src = bom_bytes @ rest, err = h,
             ch = 32, offset = 0, rdOffset = 0, ErrorCount = 0, calls = []\<rparr>"
  have d: "DecodeRune (bom_bytes @ rest) = (bom, 3)"
    by (rule DecodeRune_bom) (simp add: bom_bytes_def)
  have "next_ch ?s = \<lparr>file' = f, dir = fst (Split (name f)), src = bom_bytes @ rest, err = h,
                     ch = bom, offset = 0, rdOffset = 3, ErrorCount = 0, calls = []\<rparr>"
    by (rule Scanner.equality)
       (simp_all add: next_ch_file next_ch_offset next_ch_rdOffset next_ch_ch next_ch_calls
          next_errors_def d, simp_all add: bom_bytes_def RuneSelf_def)
  then show ?thesis using assms by (simp add: Init_def Let_def bom_bytes_def)
qed

lemma next_ch_bom:
  assumes "0 < rdOffset s" "take 3 (drop (rdOffset s) (src s)) = bom_bytes"
  shows "ch (next_ch s) = bom \<and> offset (next_ch s) = rdOffset s \<and>
         rdOffset (next_ch s) = rdOffset s + 3 \<and>
         next_errors s = [(rdOffset s, ''illegal byte order mark'')] \<and>
         ErrorCount (next_ch s) = ErrorCount s + 1 \<and>
         calls (next_ch s)
           = (if err s then calls s @ [(rdOffset s, ''illegal byte order mark'')] else calls s)"
proof -
  have d: "DecodeRune (drop (rdOffset s) (src s)) = (bom, 3)"
    by (rule DecodeRune_bom [OF assms(2)])
  have l: "rdOffset s < length (src s)"
    using assms(2) by (cases "rdOffset s < length (src s)") (simp_all add: bom_bytes_def)
  have "hd (take 3 (drop (rdOffset s) (src s))) = src s ! rdOffset s"
    using l by (simp add: hd_drop_conv_nth)
  then have b: "src s ! rdOffset s = CHR 0xEF" using assms(2) by (simp add: bom_bytes_def)
  have e: "next_errors s = [(rdOffset s, ''illegal byte order mark'')]"
    using l assms(1) by (simp add: next_errors_def d b RuneSelf_def bom_def RuneError_def)
  show ?thesis
    using l by (simp add: next_ch_ch next_ch_offset next_ch_rdOffset next_ch_calls d b e RuneSelf_def)
qed

lemma next_errors_offset: "\<forall>e\<in>set (next_errors s). fst e = rdOffset s"
  by (simp add: next_errors_def)

lemma Scan_bom:
  assumes "ch s = bom" "\<not> IsLetter U bom"
  shows "Scan U s = (next_ch s, Pos (file' s) (offset s), ILLEGAL, bom_bytes)"
proof -
  have sk: "skipWhiteSpace s = s" using assms(1) by (simp add: skipWhiteSpace_id bom_def)
  have sw: "Scan_switch U 65279 pos (next_ch s) = (next_ch s, ILLEGAL, bom_bytes)" for pos
    by (simp add: Scan_switch_def bom_def string_of_bom [unfolded bom_def])
  have "\<not> isLetter U (ch s)" using assms by (simp add: isLetter_def bom_def)
  moreover have "\<not> (48 \<le> ch s \<and> ch s \<le> 57)" using assms(1) by (simp add: bom_def)
  moreover have "ch s = 65279" using assms(1) by (simp add: bom_def)
  ultimately show ?thesis
    by (simp add: Scan_def Let_def sk sw)
qed

lemma Init_lone_bom:
  "fsize f = 3 \<Longrightarrow>
   Init f bom_bytes h
     = Some \<lparr>file' = f, dir = fst (Split (name f)), src = bom_bytes, err = h, ch = -1,
             offset = 3, rdOffset = 3, ErrorCount = 0, calls = []\<rparr>"
  by (simp add: Init_def next_ch_def DecodeRune_def Let_def RuneSelf_def bom_def RuneError_def
        bom_bytes_def)

text \<open>
  C5. \<^verbatim>\<open>Init\<close> on a source that starts with a byte order mark: the mark is read with no
  error and no invocation (error count 0 in the state with the mark as current character),
  and \<^verbatim>\<open>Init\<close> reads one character more; a source that is the mark alone leaves the
  scanner at the end of the file with no error. A byte order mark that starts at an offset
  above 0 and is read by the advance step: exactly one error "illegal byte order mark", at
  the offset of the mark. A byte order mark that is the current character when \<^verbatim>\<open>Scan\<close> is
  called (the library does not take \<open>U+FEFF\<close> for a letter): the token is \<open>ILLEGAL\<close> with
  the mark as literal, and all \<^verbatim>\<open>Scan\<close> does is to read the next character, so that every
  error of the call is at a later offset than the mark.
\<close>

theorem byte_order_mark:
  "(fsize f = length rest + 3 \<longrightarrow>
      Init f (bom_bytes @ rest) h
        = Some (next_ch \<lparr>file' = f, dir = fst (Split (name f)), src = bom_bytes @ rest,
                         err = h, ch = bom, offset = 0, rdOffset = 3, ErrorCount = 0,
                         calls = []\<rparr>)) \<and>
   (fsize f = 3 \<longrightarrow>
      Init f bom_bytes h
        = Some \<lparr>file' = f, dir = fst (Split (name f)), src = bom_bytes, err = h, ch = -1,
                offset = 3, rdOffset = 3, ErrorCount = 0, calls = []\<rparr>) \<and>
   (0 < rdOffset s \<and> take 3 (drop (rdOffset s) (src s)) = bom_bytes \<longrightarrow>
      ch (next_ch s) = bom \<and> offset (next_ch s) = rdOffset s \<and>
      ErrorCount (next_ch s) = ErrorCount s + 1 \<and>
      calls (next_ch s)
        = (if err s then calls s @ [(rdOffset s, ''illegal byte order mark'')] else calls s)) \<and>
   (wf t \<and> ch t = bom \<and> \<not> IsLetter U bom \<longrightarrow>
      Scan U t = (next_ch t, Pos (file' t) (offset t), ILLEGAL, bom_bytes) \<and>
      calls (next_ch t) = (if err t then calls t @ next_errors t else calls t) \<and>
      ErrorCount (next_ch t) = ErrorCount t + length (next_errors t) \<and>
      (\<forall>e\<in>set (next_errors t). offset t < fst e))"
proof -
  have "\<forall>e\<in>set (next_errors t). offset t < fst e" if "wf t" "ch t = bom"
    using that next_errors_offset [of t] by (auto simp: wf_def bom_def)
  then show ?thesis
    using Init_bom [of f rest h] Init_lone_bom [of f h] next_ch_bom [of s] Scan_bom [of t U]
      next_ch_calls [of t]
    by blast
qed

theorem byte_order_mark_witness:
  "fsize (example_file 6) = length bom_bytes + 3 \<and>
   Init (example_file 6) (bom_bytes @ bom_bytes) True
     = Some \<lparr>file' = example_file 6, dir = ''lib/'', src = bom_bytes @ bom_bytes, err = True,
             ch = bom, offset = 3, rdOffset = 6, ErrorCount = 1,
             calls = [(3, ''illegal byte order mark'')]\<rparr> \<and>
   Scan example_lib
     \<lparr>file' = example_file 6, dir = ''lib/'', src = bom_bytes @ bom_bytes, err = True,
      ch = bom, offset = 3, rdOffset = 6, ErrorCount = 1,
      calls = [(3, ''illegal byte order mark'')]\<rparr>
     = (\<lparr>file' = example_file 6, dir = ''lib/'', src = bom_bytes @ bom_bytes, err = True,
         ch = -1, offset = 6, rdOffset = 6, ErrorCount = 1,
         calls = [(3, ''illegal byte order mark'')]\<rparr>, 4, ILLEGAL, bom_bytes)"
proof -
  let ?s = "\<lparr>file' = example_file 6, dir = ''lib/'', src = bom_bytes @ bom_bytes, err = True,
             ch = bom, offset = 0, rdOffset = 3, ErrorCount = 0, calls = []\<rparr>"
  let ?t = "\<lparr>file' = example_file 6, dir = ''lib/'', src = bom_bytes @ bom_bytes, err = True,
             ch = bom, offset = 3, rdOffset = 6, ErrorCount = 1,
             calls = [(3, ''illegal byte order mark'')]\<rparr>"
  have f: "fsize (example_file 6) = length bom_bytes + 3"
    by (simp add: example_file_def bom_bytes_def)
  have d: "fst (Split (name (example_file 6))) = ''lib/''"
    by (simp add: example_file_def Split_def)
  have s: "0 < rdOffset ?s \<and> take 3 (drop (rdOffset ?s) (src ?s)) = bom_bytes"
    by (simp add: bom_bytes_def)
  have t: "ch ?t = bom \<and> \<not> IsLetter example_lib bom" by (simp add: example_lib_def)
  have w: "wf ?t" by (simp add: wf_def bom_def bom_bytes_def)
  have n: "next_ch ?s = ?t"
    by (rule Scanner.equality)
       (simp_all add: next_ch_file next_ch_offset next_ch_rdOffset next_ch_ch next_ch_calls
          next_errors_def bom_bytes_def RuneSelf_def RuneError_def DecodeRune_def bom_def)
  have e: "next_ch ?t
      = \<lparr>file' = example_file 6, dir = ''lib/'', src = bom_bytes @ bom_bytes, err = True,
         ch = -1, offset = 6, rdOffset = 6, ErrorCount = 1,
         calls = [(3, ''illegal byte order mark'')]\<rparr>"
    by (rule Scanner.equality)
       (simp_all add: next_ch_file next_ch_offset next_ch_rdOffset next_ch_ch next_ch_calls
          next_errors_def bom_bytes_def bom_def)
  have p: "Pos (file' ?t) (offset ?t) = 4" by (simp add: Pos_def example_file_def)
  from byte_order_mark [of "example_file 6" bom_bytes True ?s ?t example_lib] f d s t w
  have "Init (example_file 6) (bom_bytes @ bom_bytes) True = Some (next_ch ?s) \<and>
        Scan example_lib ?t = (next_ch ?t, Pos (file' ?t) (offset ?t), ILLEGAL, bom_bytes)"
    by simp
  then show ?thesis using f n e p by simp
qed


section \<open>Escape sequences\<close>

text \<open>
  \<open>digits_at n s\<close>: the digit values of the current character and the \<open>n - 1\<close> characters
  after it; \<open>number_of b ds\<close>: the number that the digits \<open>ds\<close> write in base \<open>b\<close>.
\<close>

fun digits_at :: "nat \<Rightarrow> Scanner \<Rightarrow> nat list" where
  "digits_at 0 s = []"
| "digits_at (Suc n) s = digitVal (ch s) # digits_at n (next_ch s)"

definition number_of :: "nat \<Rightarrow> nat list \<Rightarrow> nat" where
  "number_of b ds = foldl (\<lambda>x d. x * b + d) 0 ds"

lemma scanEscape_digits_value:
  "\<forall>d\<in>set (digits_at n s). d < b \<Longrightarrow> x < b ^ k \<Longrightarrow> b ^ (k + n) \<le> 2 ^ 32 \<Longrightarrow>
   scanEscape_digits U n b s x
     = ((next_ch ^^ n) s, Some (foldl (\<lambda>x d. x * b + d) x (digits_at n s)))"
proof (induction n arbitrary: s x k)
  case 0
  show ?case by simp
next
  case (Suc n)
  let ?d = "digitVal (ch s)"
  have d: "?d < b" using Suc.prems(1) by simp
  have "x * b + ?d < b ^ k * b" 
  proof -
    have "x + 1 \<le> b ^ k" using Suc.prems(2) by simp
    then have "(x + 1) * b \<le> b ^ k * b" by (rule mult_le_mono1)
    then show ?thesis using d by simp
  qed
  then have lt: "x * b + ?d < b ^ (k + 1)" by (simp add: mult.commute)
  have "b ^ (k + 1) \<le> b ^ (k + Suc n)"
    using d by (intro power_increasing) simp_all
  then have small: "x * b + ?d < 2 ^ 32" using lt Suc.prems(3) by linarith
  have "scanEscape_digits U n b (next_ch s) (x * b + ?d)
      = ((next_ch ^^ n) (next_ch s),
         Some (foldl (\<lambda>x d. x * b + d) (x * b + ?d) (digits_at n (next_ch s))))"
    using Suc.prems by (intro Suc.IH [where k = "k + 1"] lt) simp_all
  then show ?case
    using d small by (simp add: Let_def funpow_swap1)
qed

lemma scanEscape_tail_value:
  assumes "\<forall>d\<in>set (digits_at n s). d < b" "b ^ n \<le> 2 ^ 32"
  shows "scanEscape_tail U offs n b m s
     = (if m < number_of b (digits_at n s)
           \<or> 0xD800 \<le> number_of b (digits_at n s) \<and> number_of b (digits_at n s) < 0xE000
        then (error ((next_ch ^^ n) s) offs ''escape sequence is invalid Unicode code point'',
              False)
        else ((next_ch ^^ n) s, True))"
  using scanEscape_digits_value [OF assms(1), of 0 0 U] assms(2)
  by (simp add: scanEscape_tail_def number_of_def)





lemma scanEscape_octal:
  assumes "quote = 34 \<or> quote = 39" "48 \<le> ch s \<and> ch s \<le> 55" "\<forall>d\<in>set (digits_at 3 s). d < 8"
  shows "scanEscape U quote s
      = (if number_of 8 (digits_at 3 s) \<le> 255
         then ((next_ch ^^ 3) s, True)
         else (error ((next_ch ^^ 3) s) (offset s)
                 ''escape sequence is invalid Unicode code point'', False))"
proof -
  have "scanEscape U quote s = scanEscape_tail U (offset s) 3 8 255 s"
    using assms(1,2) by (auto simp: scanEscape_def Let_def)
  moreover have "number_of 8 (digits_at 3 s) < 0xD800"
    using assms(3) by (simp add: number_of_def numeral_3_eq_3)
  ultimately show ?thesis
    using assms(3) by (simp add: scanEscape_tail_value not_less)
qed

lemma scanEscape_digits_numeral:
  "scanEscape_digits U (numeral k) b s x =
     (let d = digitVal (ch s) in
      if d \<ge> b then
        (error s (offset s)
           (if ch s < 0 then ''escape sequence not terminated''
            else ''illegal character '' @ SprintfU U (ch s) @ '' in escape sequence''),
         None)
      else scanEscape_digits U (pred_numeral k) b (next_ch s) ((x * b + d) mod 2 ^ 32))"
  by (simp add: numeral_eq_Suc)




section \<open>Strings\<close>


lemma Scan_string:
  assumes "wf s" "ch s = 34 \<or> ch s = 39"
  shows "Scan U s
     = (scanString_loop U (ch s) (offset s) (next_ch s), Pos (file' s) (offset s),
        if ch s = 34 then STRING else RAWSTRING,
        slice (src s) (offset s) (offset (scanString_loop U (ch s) (offset s) (next_ch s))))"
proof -
  have sk: "skipWhiteSpace s = s" using assms(2) by (auto simp: skipWhiteSpace_id)
  have o: "offset (next_ch s) - 1 = offset s"
    using next_ch_after_ascii [OF assms(1)] assms(2) by auto
  have l: "\<not> isLetter U (ch s)" "\<not> (48 \<le> ch s \<and> ch s \<le> 57)"
    using assms(2) by (auto simp: isLetter_def RuneSelf_def)
  have src: "src (scanString_loop U q k (next_ch s)) = src s" for q k
    using adv_src [OF adv_scanString_loop [of "next_ch s" U q k]] by simp
  show ?thesis
  proof (cases "ch s = 34")
    case True
    then show ?thesis
      using l o by (simp add: Scan_def Let_def sk Scan_switch_def scanString_def src)
  next
    case False
    then have "ch s = 39" using assms(2) by simp
    then show ?thesis
      using l o by (simp add: Scan_def Let_def sk Scan_switch_def scanString_def src)
  qed
qed

text \<open>
  Where a string literal ends, in the words of the specification ("a newline or
  end-of-input occurs before the closing quote") and read off the bytes of the source:
  \<open>spec_string_end q bs i\<close> looks from the byte at \<open>i\<close>, the first one behind the opening
  quote \<open>q\<close>, for a newline (10), the end of the source or the closing quote, whichever
  comes first. A backslash (92) escapes a quote or a backslash that follows it: the two
  bytes are passed over together, so that an escaped quote does not close the string and
  an escaped backslash does not escape the byte behind it. The result is the offset where
  the literal ends and whether it is closed: the offset behind the closing quote and
  \<open>True\<close>, or the offset of the newline or of the end of the source and \<open>False\<close>. It is
  compared with the loop of \<^verbatim>\<open>scanString\<close> in \<open>scanString_loop_end\<close> below.
\<close>

function spec_string_end :: "rune \<Rightarrow> string \<Rightarrow> nat \<Rightarrow> nat \<times> bool" where
  "spec_string_end q bs i =
     (if length bs \<le> i then (length bs, False)
      else if (of_char (bs ! i) :: int) = 10 then (i, False)
      else if of_char (bs ! i) = q then (i + 1, True)
      else if (of_char (bs ! i) :: int) = 92 \<and> i + 1 < length bs \<and>
              (of_char (bs ! (i + 1)) = q \<or> (of_char (bs ! (i + 1)) :: int) = 92)
      then spec_string_end q bs (i + 2)
      else spec_string_end q bs (i + 1))"
  by pat_completeness auto
termination
  by (relation "measure (\<lambda>(q, bs, i). length bs - i)") auto

declare spec_string_end.simps [simp del]

text \<open>A byte that neither ends a string with the quote \<open>q\<close> nor is a backslash.\<close>

definition plain :: "rune \<Rightarrow> char \<Rightarrow> bool" where
  "plain q c \<longleftrightarrow> (of_char c :: int) \<noteq> 10 \<and> (of_char c :: int) \<noteq> 92 \<and> of_char c \<noteq> q"

lemma spec_string_end_skip:
  assumes "\<forall>l. i \<le> l \<and> l < j \<longrightarrow> plain q (bs ! l)" "i \<le> j" "j \<le> length bs"
  shows "spec_string_end q bs i = spec_string_end q bs j"
  using assms
proof (induction "j - i" arbitrary: i)
  case 0
  then show ?case by simp
next
  case (Suc n)
  then have lt: "i < j" by simp
  then have "plain q (bs ! i)" using Suc.prems(1) by simp
  then have "spec_string_end q bs i = spec_string_end q bs (i + 1)"
    using lt Suc.prems(3) by (subst spec_string_end.simps) (simp add: plain_def)
  moreover have "spec_string_end q bs (i + 1) = spec_string_end q bs j"
    using Suc.hyps(2) Suc.prems lt by (intro Suc.hyps(1)) auto
  ultimately show ?case by simp
qed


lemma digit_plain: "digitVal (of_char c) < 16 \<Longrightarrow> q = 34 \<or> q = 39 \<Longrightarrow> plain q c"
  by (auto simp: digitVal_def plain_def split: if_splits)

lemma digit_ascii: "digitVal c < 16 \<Longrightarrow> 0 \<le> c \<and> c < 0x80"
  by (auto simp: digitVal_def split: if_splits)

lemma scanEscape_digits_bytes:
  assumes "wf s" "b \<le> 16"
  shows "offset s \<le> offset (fst (scanEscape_digits U n b s x)) \<and>
         (\<forall>l. offset s \<le> l \<and> l < offset (fst (scanEscape_digits U n b s x))
              \<longrightarrow> digitVal (of_char (src s ! l)) < 16)"
  using assms(1)
proof (induction n arbitrary: s x)
  case 0
  show ?case by simp
next
  case (Suc n)
  show ?case
  proof (cases "b \<le> digitVal (ch s)")
    case True
    then show ?thesis by simp
  next
    case False
    then have d: "digitVal (ch s) < 16" using assms(2) by simp
    let ?n = "next_ch s"
    let ?y = "(x * b + digitVal (ch s)) mod 2 ^ 32"
    have e: "scanEscape_digits U (Suc n) b s x = scanEscape_digits U n b ?n ?y"
      using False by (simp add: Let_def)
    have a: "rdOffset s = offset s + 1" "(of_char (src s ! offset s) :: int) = ch s"
      using wf_ascii [OF Suc.prems] digit_ascii [OF d] by simp_all
    have o: "offset ?n = offset s + 1"
      using wf_next_offset [OF Suc.prems] a(1) by simp
    from Suc.IH [OF next_ch_wf(1) [OF Suc.prems], of ?y]
    have IH: "offset s + 1 \<le> offset (fst (scanEscape_digits U n b ?n ?y))"
      "\<And>l. offset s + 1 \<le> l \<Longrightarrow> l < offset (fst (scanEscape_digits U n b ?n ?y))
          \<Longrightarrow> digitVal (of_char (src s ! l)) < 16"
      by (simp_all add: o)
    have "digitVal (of_char (src s ! l)) < 16"
      if l: "offset s \<le> l" "l < offset (fst (scanEscape_digits U n b ?n ?y))" for l
    proof (cases "l = offset s")
      case True
      then show ?thesis using a(2) d by simp
    next
      case False
      then show ?thesis using IH(2) [of l] l by simp
    qed
    then show ?thesis unfolding e using IH(1) by simp
  qed
qed

lemma enc_scanEscape_digits: "enc s \<Longrightarrow> enc (fst (scanEscape_digits U n b s x))"
proof (induction n arbitrary: s x)
  case 0
  then show ?case by simp
next
  case (Suc n)
  show ?case
    using Suc.IH [OF enc_next, of s] Suc.prems by (simp add: Let_def)
qed

lemma scanEscape_tail_fields:
  "offset (fst (scanEscape_tail U k n b m s)) = offset (fst (scanEscape_digits U n b s 0))"
  "enc (fst (scanEscape_tail U k n b m s)) = enc (fst (scanEscape_digits U n b s 0))"
  by (simp_all add: scanEscape_tail_def case_prod_beta split: option.splits)

lemma enc_scanEscape: "enc s \<Longrightarrow> enc (fst (scanEscape U q s))"
  using enc_scanEscape_digits [of s] enc_scanEscape_digits [OF enc_next [of s]]
  by (simp add: scanEscape_def Let_def scanEscape_tail_fields)

lemma scanEscape_bytes:
  assumes "wf s" "enc s" "q = 34 \<or> q = 39" "ch s \<noteq> q" "ch s \<noteq> 92"
  shows "offset s \<le> offset (fst (scanEscape U q s)) \<and>
         (\<forall>l. offset s \<le> l \<and> l < offset (fst (scanEscape U q s)) \<longrightarrow> plain q (src s ! l))"
proof -
  let ?n = "next_ch s"
  have on: "offset ?n = rdOffset s" by (rule wf_next_offset [OF assms(1)])
  have wn: "wf ?n" by (rule next_ch_wf(1) [OF assms(1)])
  have cur: "plain q (src s ! l)"
    if "0 \<le> ch s" "ch s \<noteq> 10" "offset s \<le> l" "l < rdOffset s" for l
    using current_bytes [OF assms(1,2) that(1,3,4)] that(2) assms(3,4,5)
    by (auto simp: plain_def split: if_splits)
  have le: "offset s \<le> rdOffset s"
    using assms(1) by (auto simp: wf_def split: if_splits)
  have one: "offset s \<le> offset ?n \<and>
      (\<forall>l. offset s \<le> l \<and> l < offset ?n \<longrightarrow> plain q (src s ! l))"
    if "0 \<le> ch s" "ch s \<noteq> 10"
    using cur [OF that] le by (simp add: on)
  have dig: "offset s \<le> offset (fst (scanEscape_digits U n b s 0)) \<and>
      (\<forall>l. offset s \<le> l \<and> l < offset (fst (scanEscape_digits U n b s 0))
         \<longrightarrow> plain q (src s ! l))" if "b \<le> 16" for n b
    using scanEscape_digits_bytes [OF assms(1) that, of U n 0] digit_plain [OF _ assms(3)]
    by blast
  have dign: "offset s \<le> offset (fst (scanEscape_digits U n b ?n 0)) \<and>
      (\<forall>l. offset s \<le> l \<and> l < offset (fst (scanEscape_digits U n b ?n 0))
         \<longrightarrow> plain q (src s ! l))" if b: "b \<le> 16" and c: "0 \<le> ch s" "ch s \<noteq> 10" for n b
  proof -
    note D = scanEscape_digits_bytes [OF wn b, of U n 0]
    have "plain q (src s ! l)"
      if l: "offset s \<le> l" "l < offset (fst (scanEscape_digits U n b ?n 0))" for l
    proof (cases "l < rdOffset s")
      case True
      then show ?thesis using cur [OF c l(1)] by simp
    next
      case False
      then have "digitVal (of_char (src s ! l)) < 16" using D l(2) by (simp add: on)
      then show ?thesis by (rule digit_plain [OF _ assms(3)])
    qed
    then show ?thesis using D le by (simp add: on)
  qed
  show ?thesis
    using one dig [of 8 3] dign [of 16 2] dign [of 16 4] dign [of 16 8] assms(4,5)
    by (simp add: scanEscape_def Let_def scanEscape_tail_fields)
qed

lemma scanEscape_quote:
  "ch s = q \<or> ch s = 92 \<Longrightarrow> fst (scanEscape U q s) = next_ch s"
  by (auto simp: scanEscape_def Let_def)

text \<open>
  The loop of \<^verbatim>\<open>scanString\<close> ends where the bytes of the source say, and which way it leaves
  is whether the string is closed there.
\<close>

lemma scanString_loop_end:
  assumes "wf r" "enc r" "q = 34 \<or> q = 39"
  shows "\<exists>t. reports (escape_errors U) r t \<and> adv r t \<and> wf t \<and>
          (if snd (spec_string_end q (src r) (offset r))
           then ch t = q \<and> scanString_loop U q k r = next_ch t \<and>
                fst (spec_string_end q (src r) (offset r)) = offset t + 1
           else (ch t = 10 \<or> ch t = -1) \<and>
                scanString_loop U q k r = error t k ''string literal not terminated'' \<and>
                fst (spec_string_end q (src r) (offset r)) = offset t)"
  using assms
proof (induction U q k r rule: scanString_loop.induct)
  case (1 U quote offs s)
  let ?E = "escape_errors U"
  let ?n = "next_ch s"
  let ?e = "fst (scanEscape U quote ?n)"
  let ?bs = "src s"
  note w = "1.prems"(1) and en = "1.prems"(2) and q = "1.prems"(3)
  have wn: "wf ?n" by (rule next_ch_wf(1) [OF w])
  have on: "offset ?n = rdOffset s" by (rule wf_next_offset [OF w])
  show ?case
  proof (cases "ch s = 10 \<or> ch s < 0")
    case True
    have l: "scanString_loop U quote offs s = error s offs ''string literal not terminated''"
      using True by (subst scanString_loop.simps) simp
    have "spec_string_end quote ?bs (offset s) = (offset s, False) \<and> (ch s = 10 \<or> ch s = -1)"
    proof (cases "ch s = 10")
      case True
      then show ?thesis
        using wf_ascii [OF w] by (subst spec_string_end.simps) simp
    next
      case False
      then have "ch s = -1" "offset s = length ?bs"
        using True w by (auto simp: wf_def)
      then show ?thesis by (subst spec_string_end.simps) simp
    qed
    then show ?thesis
      using l w by (intro exI [of _ s]) simp
  next
    case a: False
    then have pos: "0 \<le> ch s" by simp
    show ?thesis
    proof (cases "ch s = quote")
      case True
      have l: "scanString_loop U quote offs s = next_ch s"
        using a True by (subst scanString_loop.simps) simp
      have "ch s < 0x80" using True q by auto
      then have "offset s < length ?bs" "(of_char (?bs ! offset s) :: int) = quote"
        using wf_ascii [OF w pos] True by simp_all
      then have "spec_string_end quote ?bs (offset s) = (offset s + 1, True)"
        using a True by (subst spec_string_end.simps) auto
      then show ?thesis
        using l w True by (intro exI [of _ s]) simp
    next
      case b: False
      show ?thesis
      proof (cases "ch s = 92")
        case True
        have l: "scanString_loop U quote offs s = scanString_loop U quote offs ?e"
          using a b True by (subst scanString_loop.simps) simp
        have we: "wf ?e" by (rule adv_wf [OF adv_scanEscape wn])
        have ee: "enc ?e" by (rule enc_scanEscape [OF enc_next])
        have se: "src ?e = ?bs" using adv_src [OF adv_scanEscape [of ?n U quote]] by simp
        have re: "reports ?E s ?e"
          by (rule reports_trans [OF reports_next reports_scanEscape]) simp
        have bs: "rdOffset s = offset s + 1" "(of_char (?bs ! offset s) :: int) = 92"
          "offset s < length ?bs"
          using wf_ascii [OF w pos] True by simp_all
        have sp: "spec_string_end quote ?bs (offset s) = spec_string_end quote ?bs (offset ?e)"
        proof (cases "ch ?n = quote \<or> ch ?n = 92")
          case c: True
          then have "0 \<le> ch ?n" "ch ?n < 0x80" using q by auto
          then have n: "rdOffset ?n = offset ?n + 1" "(of_char (?bs ! offset ?n) :: int) = ch ?n"
            "offset ?n < length ?bs"
            using wf_ascii [OF wn] by simp_all
          have "offset ?e = offset s + 2"
            using scanEscape_quote [OF c, of U] wf_next_offset [OF wn] n(1) on bs(1) by simp
          moreover have "spec_string_end quote ?bs (offset s)
              = spec_string_end quote ?bs (offset s + 2)"
            using bs c n on q by (subst spec_string_end.simps) auto
          ultimately show ?thesis by simp
        next
          case c: False
          have nq: "\<not> (offset s + 1 < length ?bs \<and>
              (of_char (?bs ! (offset s + 1)) = quote
               \<or> (of_char (?bs ! (offset s + 1)) :: int) = 92))"
          proof (cases "0 \<le> ch ?n")
            case True
            have "offset ?n < rdOffset ?n" using wn True by (auto simp: wf_def)
            from current_bytes [OF wn enc_next True order_refl this]
            show ?thesis using c q on bs(1) by (auto split: if_splits)
          next
            case False
            then have "offset ?n = length ?bs" using wn by (auto simp: wf_def)
            then show ?thesis using on bs(1) by simp
          qed
          have 1: "spec_string_end quote ?bs (offset s) = spec_string_end quote ?bs (offset s + 1)"
            using bs nq q by (subst spec_string_end.simps) auto
          note B = scanEscape_bytes [OF wn enc_next q, of U]
          have 2: "spec_string_end quote ?bs (offset ?n) = spec_string_end quote ?bs (offset ?e)"
            using B c wf_offset_le [OF we] se
            by (intro spec_string_end_skip) auto
          show ?thesis using 1 2 on bs(1) by simp
        qed
        from "1.IH"(1) [OF a b True we ee q, unfolded se] obtain t where
          t: "reports ?E ?e t" "adv ?e t" "wf t"
            "if snd (spec_string_end quote ?bs (offset ?e))
             then ch t = quote \<and> scanString_loop U quote offs ?e = next_ch t \<and>
                  fst (spec_string_end quote ?bs (offset ?e)) = offset t + 1
             else (ch t = 10 \<or> ch t = -1) \<and>
                  scanString_loop U quote offs ?e = error t offs ''string literal not terminated'' \<and>
                  fst (spec_string_end quote ?bs (offset ?e)) = offset t"
          by blast
        show ?thesis
          unfolding l sp
          using reports_trans [OF re t(1)] adv_trans [OF adv_trans [OF adv_next adv_scanEscape] t(2)]
            t(3,4)
          by (intro exI [of _ t]) simp
      next
        case c: False
        have l: "scanString_loop U quote offs s = scanString_loop U quote offs ?n"
          using a b c by (subst scanString_loop.simps) simp
        have "plain quote (?bs ! j)" if "offset s \<le> j" "j < rdOffset s" for j
          using current_bytes [OF w en pos that] a b c q
          by (auto simp: plain_def split: if_splits)
        then have sp: "spec_string_end quote ?bs (offset s) = spec_string_end quote ?bs (offset ?n)"
          using w wf_offset_le [OF wn]
          by (intro spec_string_end_skip) (auto simp: on wf_def split: if_splits)
        from "1.IH"(2) [OF a b c wn enc_next q] obtain t where
          t: "reports ?E ?n t" "adv ?n t" "wf t"
            "if snd (spec_string_end quote ?bs (offset ?n))
             then ch t = quote \<and> scanString_loop U quote offs ?n = next_ch t \<and>
                  fst (spec_string_end quote ?bs (offset ?n)) = offset t + 1
             else (ch t = 10 \<or> ch t = -1) \<and>
                  scanString_loop U quote offs ?n = error t offs ''string literal not terminated'' \<and>
                  fst (spec_string_end quote ?bs (offset ?n)) = offset t"
          unfolding next_ch_frame by blast
        show ?thesis
          unfolding l sp
          using reports_trans [OF reports_next t(1)] adv_trans [OF adv_next t(2)] t(3,4)
          by (intro exI [of _ t]) simp
      qed
    qed
  qed
qed





section \<open>The position of an error\<close>

text \<open>
  The characters that begin a token in the \<^verbatim>\<open>switch\<close> of \<^verbatim>\<open>Scan\<close> whatever follows them:
  \<open>" ' : . , ( ) [ ] { } + - * / % < > = !\<close>. The characters \<open>&\<close> (38) and \<open>|\<close> (124) begin
  a token only when doubled.
\<close>

definition punctuation :: "rune set" where
  "punctuation = {34, 39, 58, 46, 44, 40, 41, 91, 93, 123, 125, 43, 45, 42, 47, 37, 60, 62, 61, 33}"

lemma next_ch_reports_exactly:
  "\<exists>new. calls (next_ch s) = calls s @ new \<and> length new \<le> 1 \<and>
         set new = (if err s then read_errors_in (src s) (rdOffset s) (rdOffset s + 1) else {})"
  using next_errors_exact [of s]
  by (cases "err s") (simp_all add: next_ch_calls)

lemma Scan_reports:
  assumes "wf s"
  shows "\<exists>new. calls (fst (Scan U s)) = calls s @ new \<and>
           set new \<subseteq> read_errors_in (src s) (rdOffset s) (rdOffset (fst (Scan U s)))
                       \<union> escape_errors U \<union> token_errors U (skipWhiteSpace s)"
  using reports_Scan [OF assms, of U] by (simp add: reports_def Un_assoc)

lemma Scan_illegal_character:
  assumes "\<not> isLetter U (ch s)" "\<not> (48 \<le> ch s \<and> ch s \<le> 57)"
    "ch s \<noteq> 32" "ch s \<noteq> 9" "ch s \<noteq> 10" "ch s \<noteq> 13"
    "ch s \<noteq> -1" "ch s \<noteq> bom" "ch s \<notin> punctuation"
    "ch s = 38 \<or> ch s = 124 \<longrightarrow> ch (next_ch s) \<noteq> ch s"
  shows "Scan U s = (error (next_ch s) (offset s) (illegal_character U (ch s)),
                     Pos (file' s) (offset s), ILLEGAL, string_of_rune (ch s))"
proof -
  have sk: "skipWhiteSpace s = s" using assms(3-6) by (rule skipWhiteSpace_id)
  define c where "c = ch s"
  have p: "c \<noteq> 34" "c \<noteq> 39" "c \<noteq> 58" "c \<noteq> 46" "c \<noteq> 44" "c \<noteq> 40" "c \<noteq> 41" "c \<noteq> 91"
    "c \<noteq> 93" "c \<noteq> 123" "c \<noteq> 125" "c \<noteq> 43" "c \<noteq> 45" "c \<noteq> 42" "c \<noteq> 47" "c \<noteq> 37"
    "c \<noteq> 60" "c \<noteq> 62" "c \<noteq> 61" "c \<noteq> 33" "c \<noteq> -1" "c \<noteq> bom"
    using assms(7-9) by (simp_all add: punctuation_def c_def)
  have o: "Offset_of (file' (next_ch s)) (Pos (file' s) (offset s)) = offset s"
    by (simp add: Offset_of_Pos)
  have "Scan_switch U c (Pos (file' s) (offset s)) (next_ch s)
      = (error (next_ch s) (offset s) (illegal_character U c), ILLEGAL, string_of_rune c)"
  proof -
    consider (amp) "c = 38" | (bar) "c = 124" | (other) "c \<noteq> 38" "c \<noteq> 124" by blast
    then show ?thesis
    proof cases
      case amp
      then have "ch (next_ch s) \<noteq> 38" using assms(10) by (simp add: c_def)
      then show ?thesis using amp o by (simp add: Scan_switch_def)
    next
      case bar
      then have "ch (next_ch s) \<noteq> 124" using assms(10) by (simp add: c_def)
      then show ?thesis using bar o by (simp add: Scan_switch_def)
    next
      case other
      then show ?thesis using p o by (simp add: Scan_switch_def)
    qed
  qed
  then show ?thesis
    by (simp add: Scan_def sk Let_def c_def assms(1,2))
qed

lemma Scan_number:
  "ch s = 48 \<Longrightarrow>
   Scan U s = (fst (scanNumber False s), Pos (file' s) (offset s), snd (scanNumber False s))"
  by (simp add: Scan_def skipWhiteSpace_id isLetter_def RuneSelf_def case_prod_beta)

lemma Scan_hex:
  assumes "wf s" "ch s = 48" "ch (next_ch s) = 120 \<or> ch (next_ch s) = 88"
  shows "fst (Scan U s)
       = (if digitVal (ch (next_ch (next_ch s))) < 16
          then scanMantissa 16 (next_ch (next_ch s))
          else error (next_ch (next_ch s)) (offset s) ''illegal hexadecimal number'') \<and>
         offset (next_ch (next_ch s)) = offset s + 2"
proof -
  let ?n1 = "next_ch s"
  let ?n2 = "next_ch ?n1"
  let ?s2 = "scanMantissa 16 ?n2"
  have w: "wf ?n1" "wf ?n2" using assms(1) by (auto intro: next_ch_wf(1))
  have o1: "offset ?n1 = offset s + 1"
    using next_ch_after_ascii [OF assms(1)] assms(2) by simp
  have o2: "offset ?n2 = offset s + 2"
    using next_ch_after_ascii [OF w(1)] assms(3) o1 by auto
  have N: "fst (scanNumber False s)
      = (if offset ?s2 - offset s \<le> 2
         then error ?s2 (offset s) ''illegal hexadecimal number'' else ?s2)"
    using assms(2,3) by (elim disjE; simp add: scanNumber_def Let_def)
  show ?thesis
  proof (cases "digitVal (ch ?n2) < 16")
    case True
    then have c: "0 \<le> ch ?n2" using digit_ascii by blast
    then have e: "?s2 = scanMantissa 16 (next_ch ?n2)"
      using True by (subst scanMantissa.simps) simp
    have "offset ?n2 < offset (next_ch ?n2)"
      using next_ch_wf(3) [OF w(2)] c by simp
    moreover have "offset (next_ch ?n2) \<le> offset (scanMantissa 16 (next_ch ?n2))"
      by (rule adv_offset [OF adv_scanMantissa next_ch_wf(1) [OF w(2)]])
    ultimately have "\<not> offset ?s2 - offset s \<le> 2" using o2 e by simp
    then show ?thesis using True o2 by (simp add: Scan_number [OF assms(2)] N)
  next
    case False
    then have "?s2 = ?n2" by (subst scanMantissa.simps) simp
    then show ?thesis using False o2 by (simp add: Scan_number [OF assms(2)] N)
  qed
qed

lemma Scan_octal_position:
  assumes "wf s" "ch s = 48"
    "ch (scanMantissa 8 (next_ch s)) = 56 \<or> ch (scanMantissa 8 (next_ch s)) = 57"
  shows "offset s < offset (scanMantissa 8 (next_ch s)) \<and>
         offset (scanMantissa 8 (next_ch s)) < length (src s) \<and>
         (of_char (src s ! offset (scanMantissa 8 (next_ch s))) :: int)
           = ch (scanMantissa 8 (next_ch s))"
proof -
  let ?n1 = "next_ch s"
  let ?s2 = "scanMantissa 8 ?n1"
  have w: "wf ?n1" using assms(1) by (rule next_ch_wf(1))
  have w2: "wf ?s2" by (rule adv_wf [OF adv_scanMantissa w])
  have "offset ?n1 = offset s + 1"
    using next_ch_after_ascii [OF assms(1)] assms(2) by simp
  moreover have "offset ?n1 \<le> offset ?s2" by (rule adv_offset [OF adv_scanMantissa w])
  moreover have "src ?s2 = src s" using adv_src [OF adv_scanMantissa [of ?n1 8]] by simp
  ultimately show ?thesis
    using wf_ascii [OF w2] assms(3) by auto
qed

lemma skipWhiteSpace_quote: "ch s = 34 \<or> ch s = 39 \<Longrightarrow> skipWhiteSpace s = s"
  by (auto simp: skipWhiteSpace_id)

lemma Scan_string_open:
  assumes "wf s" "ch s = 34 \<or> ch s = 39"
    "\<not> snd (spec_string_end (ch s) (src s) (offset s + 1))"
  shows "\<exists>t. reports (escape_errors U) s t \<and> adv s t \<and>
             fst (Scan U s) = error t (offset s) ''string literal not terminated'' \<and>
             offset t = fst (spec_string_end (ch s) (src s) (offset s + 1)) \<and>
             offset s < offset t"
proof -
  let ?n = "next_ch s"
  have wn: "wf ?n" by (rule next_ch_wf(1) [OF assms(1)])
  have on: "offset ?n = offset s + 1"
    using next_ch_after_ascii [OF assms(1)] assms(2) by auto
  from scanString_loop_end [OF wn enc_next assms(2), of U "offset s"] assms(3) obtain t where
    t: "reports (escape_errors U) ?n t" "adv ?n t"
       "scanString_loop U (ch s) (offset s) ?n = error t (offset s) ''string literal not terminated''"
       "fst (spec_string_end (ch s) (src s) (offset s + 1)) = offset t"
    unfolding on next_ch_frame by auto
  have "offset s < offset t"
    using on adv_offset [OF t(2) wn] by simp
  then show ?thesis
    using t(3,4) reports_trans [OF reports_next t(1)] adv_trans [OF adv_next t(2)]
    by (intro exI [of _ t]) (simp add: Scan_string [OF assms(1,2)])
qed

lemma scanEscape_unknown:
  assumes "ch r \<noteq> q" "ch r \<notin> {97, 98, 102, 110, 114, 116, 118, 92}"
    "\<not> (48 \<le> ch r \<and> ch r \<le> 55)" "ch r \<notin> {120, 117, 85}"
  shows "scanEscape U q r
     = (error r (offset r)
          (if ch r < 0 then ''escape sequence not terminated'' else ''unknown escape sequence''),
        False)"
  using assms(1,2,4) by (simp add: scanEscape_def Let_def assms(3))

lemma scanEscape_digits_error:
  assumes "\<forall>d\<in>set (digits_at j s). d < b" "j < n" "b \<le> digitVal (ch ((next_ch ^^ j) s))"
  shows "scanEscape_digits U n b s x
     = (error ((next_ch ^^ j) s) (offset ((next_ch ^^ j) s))
          (if ch ((next_ch ^^ j) s) < 0 then ''escape sequence not terminated''
           else ''illegal character '' @ SprintfU U (ch ((next_ch ^^ j) s))
                @ '' in escape sequence''),
        None)"
  using assms
proof (induction j arbitrary: s x n)
  case 0
  then obtain n' where "n = Suc n'" by (cases n) auto
  then show ?case using 0 by (simp add: Let_def)
next
  case (Suc j)
  then obtain n' where n: "n = Suc n'" "j < n'" by (cases n) auto
  have d: "digitVal (ch s) < b" using Suc.prems(1) by simp
  have "scanEscape_digits U n' b (next_ch s) ((x * b + digitVal (ch s)) mod 2 ^ 32)
     = (error ((next_ch ^^ j) (next_ch s)) (offset ((next_ch ^^ j) (next_ch s)))
          (if ch ((next_ch ^^ j) (next_ch s)) < 0 then ''escape sequence not terminated''
           else ''illegal character '' @ SprintfU U (ch ((next_ch ^^ j) (next_ch s)))
                @ '' in escape sequence''),
        None)"
    using Suc.prems n(2) by (intro Suc.IH) (simp_all add: funpow_swap1)
  then show ?case using d n(1) by (simp add: Let_def funpow_swap1)
qed

lemma scanEscape_tail_error:
  assumes "\<forall>d\<in>set (digits_at j s). d < b" "j < n" "b \<le> digitVal (ch ((next_ch ^^ j) s))"
  shows "scanEscape_tail U k n b m s
     = (error ((next_ch ^^ j) s) (offset ((next_ch ^^ j) s))
          (if ch ((next_ch ^^ j) s) < 0 then ''escape sequence not terminated''
           else ''illegal character '' @ SprintfU U (ch ((next_ch ^^ j) s))
                @ '' in escape sequence''),
        False)"
  by (simp add: scanEscape_tail_def scanEscape_digits_error [OF assms])

lemma scanEscape_letter_digit_error:
  assumes "q = 34 \<or> q = 39"
    "ch r = 120 \<and> n = 2 \<or> ch r = 117 \<and> n = 4 \<or> ch r = 85 \<and> n = 8"
    "\<forall>d\<in>set (digits_at j (next_ch r)). d < 16" "j < n"
    "16 \<le> digitVal (ch ((next_ch ^^ j) (next_ch r)))"
  shows "scanEscape U q r
     = (error ((next_ch ^^ j) (next_ch r)) (offset ((next_ch ^^ j) (next_ch r)))
          (if ch ((next_ch ^^ j) (next_ch r)) < 0 then ''escape sequence not terminated''
           else ''illegal character '' @ SprintfU U (ch ((next_ch ^^ j) (next_ch r)))
                @ '' in escape sequence''),
        False)"
proof -
  have "scanEscape U q r = scanEscape_tail U (offset r) n 16 (if n = 2 then 255 else MaxRune) (next_ch r)"
    using assms(1,2) by (elim disjE conjE; simp add: scanEscape_def Let_def)
  then show ?thesis by (simp add: scanEscape_tail_error [OF assms(3-5)])
qed

lemma scanEscape_octal_digit_error:
  assumes "q = 34 \<or> q = 39" "48 \<le> ch r \<and> ch r \<le> 55"
    "\<forall>d\<in>set (digits_at j r). d < 8" "j < 3" "8 \<le> digitVal (ch ((next_ch ^^ j) r))"
  shows "scanEscape U q r
     = (error ((next_ch ^^ j) r) (offset ((next_ch ^^ j) r))
          (if ch ((next_ch ^^ j) r) < 0 then ''escape sequence not terminated''
           else ''illegal character '' @ SprintfU U (ch ((next_ch ^^ j) r))
                @ '' in escape sequence''),
        False)"
proof -
  have "scanEscape U q r = scanEscape_tail U (offset r) 3 8 255 r"
    using assms(1,2) by (elim disjE conjE; simp add: scanEscape_def Let_def)
  then show ?thesis by (simp add: scanEscape_tail_error [OF assms(3-5)])
qed

lemma scanEscape_letter_code_point:
  assumes "q = 34 \<or> q = 39"
    "ch r = 120 \<and> n = 2 \<and> m = 255 \<or> ch r = 117 \<and> n = 4 \<and> m = MaxRune
     \<or> ch r = 85 \<and> n = 8 \<and> m = MaxRune"
    "\<forall>d\<in>set (digits_at n (next_ch r)). d < 16"
    "m < number_of 16 (digits_at n (next_ch r))
     \<or> 0xD800 \<le> number_of 16 (digits_at n (next_ch r))
       \<and> number_of 16 (digits_at n (next_ch r)) < 0xE000"
  shows "scanEscape U q r
     = (error ((next_ch ^^ n) (next_ch r)) (offset r)
          ''escape sequence is invalid Unicode code point'', False)"
proof -
  have "scanEscape U q r = scanEscape_tail U (offset r) n 16 m (next_ch r)"
    using assms(1,2) by (elim disjE conjE; simp add: scanEscape_def Let_def)
  moreover have "(16::nat) ^ n \<le> 2 ^ 32" using assms(2) by auto
  ultimately show ?thesis
    using assms(3,4) by (simp add: scanEscape_tail_value)
qed

lemma scanEscape_octal_code_point:
  assumes "q = 34 \<or> q = 39" "48 \<le> ch r \<and> ch r \<le> 55"
    "\<forall>d\<in>set (digits_at 3 r). d < 8" "255 < number_of 8 (digits_at 3 r)"
  shows "scanEscape U q r
     = (error ((next_ch ^^ 3) r) (offset r)
          ''escape sequence is invalid Unicode code point'', False)"
  using scanEscape_octal [OF assms(1-3), of U] assms(4) by simp

text \<open>
  C7, as amended. When the scanner detects an error it calls \<^verbatim>\<open>s.error(offs, msg)\<close>, which
  hands the handler, if there is one, the position of the offset \<open>offs\<close> and the message.
  Which offset that is depends on the error. In what follows \<open>s\<close> is a scanner between two
  calls of \<^verbatim>\<open>Scan\<close>, \<open>r\<close> a scanner at the character behind the backslash of an escape
  sequence in a string with the quote \<open>q\<close>.
  \<^item> Reading a character: one call of \<^verbatim>\<open>next\<close> invokes the handler at most once, and exactly
    for an error of the character it reads (a NUL byte, an illegal UTF-8 encoding, a byte
    order mark that is not the first character), at the offset of that character.
  \<^item> During one call of \<^verbatim>\<open>Scan\<close> every new invocation is either such an error, for one of
    the characters read during the call, or an error of an escape sequence, or one of
    "illegal hexadecimal number", "illegal octal number", "string literal not terminated"
    and "illegal character", at the offset where the token begins.
  \<^item> A character that begins no token is reported as "illegal character" at its own
    offset, after it is consumed.
  \<^item> \<open>0x\<close> or \<open>0X\<close> without a hexadecimal digit behind it is reported as "illegal
    hexadecimal number" at the offset of the \<open>0\<close>, two bytes before the place where the
    digit is missing; with a digit, the digits are read and nothing is reported.
  \<^item> A number with a leading \<open>0\<close> whose octal digits stop at an \<open>8\<close> or a \<open>9\<close>, and that
    is not a float, is reported as "illegal octal number" at the offset of the \<open>0\<close>, which
    lies before the offset of that digit.
  \<^item> A string that a newline or the end of the source ends is reported as "string literal
    not terminated" at the offset of the opening quote, which lies before the offset of
    the newline or the end, where the scanner stops; it is the last thing done, after the
    errors of reading and of escape sequences inside the string.
  \<^item> In an escape sequence, a character that begins no escape is reported as "unknown
    escape sequence", or "escape sequence not terminated" at the end of the file, at its
    own offset. The first character that is not a digit among the \<open>n\<close> digits of \<open>\x\<close>,
    \<open>\u\<close>, \<open>\U\<close> (2, 4, 8 hexadecimal digits) or of an octal escape (3 digits) is reported
    as "illegal character in escape sequence", or "escape sequence not terminated" at the
    end of the file, at its own offset. When all the digits are there and the value is
    not a valid code point, "escape sequence is invalid Unicode code point" is reported at
    the offset of the character behind the backslash.
\<close>

theorem Scan_error_positions:
  assumes "wf s" "q = 34 \<or> q = 39"
  shows "(\<exists>new. calls (next_ch s) = calls s @ new \<and> length new \<le> 1 \<and>
            set new = (if err s then read_errors_in (src s) (rdOffset s) (rdOffset s + 1)
                       else {})) \<and>
         (\<exists>new. calls (fst (Scan U s)) = calls s @ new \<and>
            set new \<subseteq> read_errors_in (src s) (rdOffset s) (rdOffset (fst (Scan U s)))
                        \<union> escape_errors U \<union> token_errors U (skipWhiteSpace s)) \<and>
         (\<not> isLetter U (ch s) \<and> \<not> (48 \<le> ch s \<and> ch s \<le> 57) \<and>
          ch s \<noteq> 32 \<and> ch s \<noteq> 9 \<and> ch s \<noteq> 10 \<and> ch s \<noteq> 13 \<and>
          ch s \<noteq> -1 \<and> ch s \<noteq> bom \<and> ch s \<notin> punctuation \<and>
          (ch s = 38 \<or> ch s = 124 \<longrightarrow> ch (next_ch s) \<noteq> ch s) \<longrightarrow>
            Scan U s = (error (next_ch s) (offset s) (illegal_character U (ch s)),
                        Pos (file' s) (offset s), ILLEGAL, string_of_rune (ch s))) \<and>
         (ch s = 48 \<and> (ch (next_ch s) = 120 \<or> ch (next_ch s) = 88) \<longrightarrow>
            fst (Scan U s)
              = (if digitVal (ch (next_ch (next_ch s))) < 16
                 then scanMantissa 16 (next_ch (next_ch s))
                 else error (next_ch (next_ch s)) (offset s) ''illegal hexadecimal number'') \<and>
            offset (next_ch (next_ch s)) = offset s + 2) \<and>
         (ch s = 48 \<and> ch (next_ch s) \<noteq> 120 \<and> ch (next_ch s) \<noteq> 88 \<and>
          (ch (scanMantissa 8 (next_ch s)) = 56 \<or> ch (scanMantissa 8 (next_ch s)) = 57) \<and>
          ch (scanMantissa 10 (scanMantissa 8 (next_ch s))) \<noteq> 46 \<and>
          ch (scanMantissa 10 (scanMantissa 8 (next_ch s))) \<noteq> 101 \<and>
          ch (scanMantissa 10 (scanMantissa 8 (next_ch s))) \<noteq> 69 \<longrightarrow>
            fst (Scan U s)
              = error (scanMantissa 10 (scanMantissa 8 (next_ch s))) (offset s)
                  ''illegal octal number'' \<and>
            offset s < offset (scanMantissa 8 (next_ch s)) \<and>
            offset (scanMantissa 8 (next_ch s)) < length (src s) \<and>
            (of_char (src s ! offset (scanMantissa 8 (next_ch s))) :: int)
              = ch (scanMantissa 8 (next_ch s))) \<and>
         ((ch s = 34 \<or> ch s = 39) \<and>
          \<not> snd (spec_string_end (ch s) (src s) (offset s + 1)) \<longrightarrow>
            (\<exists>t. reports (escape_errors U) s t \<and> adv s t \<and>
                 fst (Scan U s) = error t (offset s) ''string literal not terminated'' \<and>
                 offset t = fst (spec_string_end (ch s) (src s) (offset s + 1)) \<and>
                 offset s < offset t)) \<and>
         (ch r \<noteq> q \<and> ch r \<notin> {97, 98, 102, 110, 114, 116, 118, 92} \<and>
          \<not> (48 \<le> ch r \<and> ch r \<le> 55) \<and> ch r \<notin> {120, 117, 85} \<longrightarrow>
            scanEscape U q r
              = (error r (offset r)
                   (if ch r < 0 then ''escape sequence not terminated''
                    else ''unknown escape sequence''),
                 False)) \<and>
         ((ch r = 120 \<and> n = 2 \<or> ch r = 117 \<and> n = 4 \<or> ch r = 85 \<and> n = 8) \<and>
          (\<forall>d\<in>set (digits_at j (next_ch r)). d < 16) \<and> j < n \<and>
          16 \<le> digitVal (ch ((next_ch ^^ j) (next_ch r))) \<longrightarrow>
            scanEscape U q r
              = (error ((next_ch ^^ j) (next_ch r)) (offset ((next_ch ^^ j) (next_ch r)))
                   (if ch ((next_ch ^^ j) (next_ch r)) < 0 then ''escape sequence not terminated''
                    else ''illegal character '' @ SprintfU U (ch ((next_ch ^^ j) (next_ch r)))
                         @ '' in escape sequence''),
                 False)) \<and>
         (48 \<le> ch r \<and> ch r \<le> 55 \<and> (\<forall>d\<in>set (digits_at j r). d < 8) \<and> j < 3 \<and>
          8 \<le> digitVal (ch ((next_ch ^^ j) r)) \<longrightarrow>
            scanEscape U q r
              = (error ((next_ch ^^ j) r) (offset ((next_ch ^^ j) r))
                   (if ch ((next_ch ^^ j) r) < 0 then ''escape sequence not terminated''
                    else ''illegal character '' @ SprintfU U (ch ((next_ch ^^ j) r))
                         @ '' in escape sequence''),
                 False)) \<and>
         ((ch r = 120 \<and> n = 2 \<and> m = 255 \<or> ch r = 117 \<and> n = 4 \<and> m = MaxRune
           \<or> ch r = 85 \<and> n = 8 \<and> m = MaxRune) \<and>
          (\<forall>d\<in>set (digits_at n (next_ch r)). d < 16) \<and>
          (m < number_of 16 (digits_at n (next_ch r))
           \<or> 0xD800 \<le> number_of 16 (digits_at n (next_ch r))
             \<and> number_of 16 (digits_at n (next_ch r)) < 0xE000) \<longrightarrow>
            scanEscape U q r
              = (error ((next_ch ^^ n) (next_ch r)) (offset r)
                   ''escape sequence is invalid Unicode code point'', False)) \<and>
         (48 \<le> ch r \<and> ch r \<le> 55 \<and> (\<forall>d\<in>set (digits_at 3 r). d < 8) \<and>
          255 < number_of 8 (digits_at 3 r) \<longrightarrow>
            scanEscape U q r
              = (error ((next_ch ^^ 3) r) (offset r)
                   ''escape sequence is invalid Unicode code point'', False))"
proof (intro conjI impI; (elim conjE)?)
  show "\<exists>new. calls (next_ch s) = calls s @ new \<and> length new \<le> 1 \<and>
            set new = (if err s then read_errors_in (src s) (rdOffset s) (rdOffset s + 1)
                       else {})"
    by (rule next_ch_reports_exactly)
  show "\<exists>new. calls (fst (Scan U s)) = calls s @ new \<and>
            set new \<subseteq> read_errors_in (src s) (rdOffset s) (rdOffset (fst (Scan U s)))
                        \<union> escape_errors U \<union> token_errors U (skipWhiteSpace s)"
    by (rule Scan_reports [OF assms(1)])
next
  assume "\<not> isLetter U (ch s)" "\<not> (48 \<le> ch s \<and> ch s \<le> 57)"
    "ch s \<noteq> 32" "ch s \<noteq> 9" "ch s \<noteq> 10" "ch s \<noteq> 13"
    "ch s \<noteq> -1" "ch s \<noteq> bom" "ch s \<notin> punctuation"
    "ch s = 38 \<or> ch s = 124 \<longrightarrow> ch (next_ch s) \<noteq> ch s"
  then show "Scan U s = (error (next_ch s) (offset s) (illegal_character U (ch s)),
                        Pos (file' s) (offset s), ILLEGAL, string_of_rune (ch s))"
    by (rule Scan_illegal_character)
next
  assume a: "ch s = 48" "ch (next_ch s) = 120 \<or> ch (next_ch s) = 88"
  show "fst (Scan U s)
              = (if digitVal (ch (next_ch (next_ch s))) < 16
                 then scanMantissa 16 (next_ch (next_ch s))
                 else error (next_ch (next_ch s)) (offset s) ''illegal hexadecimal number'')"
    "offset (next_ch (next_ch s)) = offset s + 2"
    using Scan_hex [OF assms(1) a, of U] by simp_all
next
  assume a: "ch s = 48" "ch (next_ch s) \<noteq> 120" "ch (next_ch s) \<noteq> 88"
    "ch (scanMantissa 8 (next_ch s)) = 56 \<or> ch (scanMantissa 8 (next_ch s)) = 57"
    "ch (scanMantissa 10 (scanMantissa 8 (next_ch s))) \<noteq> 46"
    "ch (scanMantissa 10 (scanMantissa 8 (next_ch s))) \<noteq> 101"
    "ch (scanMantissa 10 (scanMantissa 8 (next_ch s))) \<noteq> 69"
  show "fst (Scan U s)
              = error (scanMantissa 10 (scanMantissa 8 (next_ch s))) (offset s)
                  ''illegal octal number''"
    using Scan_octal_digits [OF a(1-4), of U] a(5-7) by simp
  show "offset s < offset (scanMantissa 8 (next_ch s))"
    "offset (scanMantissa 8 (next_ch s)) < length (src s)"
    "(of_char (src s ! offset (scanMantissa 8 (next_ch s))) :: int)
              = ch (scanMantissa 8 (next_ch s))"
    using Scan_octal_position [OF assms(1) a(1,4)] by simp_all
next
  assume "ch s = 34 \<or> ch s = 39" "\<not> snd (spec_string_end (ch s) (src s) (offset s + 1))"
  then show "\<exists>t. reports (escape_errors U) s t \<and> adv s t \<and>
                 fst (Scan U s) = error t (offset s) ''string literal not terminated'' \<and>
                 offset t = fst (spec_string_end (ch s) (src s) (offset s + 1)) \<and>
                 offset s < offset t"
    by (rule Scan_string_open [OF assms(1)])
next
  assume "ch r \<noteq> q" "ch r \<notin> {97, 98, 102, 110, 114, 116, 118, 92}"
    "\<not> (48 \<le> ch r \<and> ch r \<le> 55)" "ch r \<notin> {120, 117, 85}"
  then show "scanEscape U q r
              = (error r (offset r)
                   (if ch r < 0 then ''escape sequence not terminated''
                    else ''unknown escape sequence''),
                 False)"
    by (rule scanEscape_unknown)
next
  assume "ch r = 120 \<and> n = 2 \<or> ch r = 117 \<and> n = 4 \<or> ch r = 85 \<and> n = 8"
    "\<forall>d\<in>set (digits_at j (next_ch r)). d < 16" "j < n"
    "16 \<le> digitVal (ch ((next_ch ^^ j) (next_ch r)))"
  then show "scanEscape U q r
              = (error ((next_ch ^^ j) (next_ch r)) (offset ((next_ch ^^ j) (next_ch r)))
                   (if ch ((next_ch ^^ j) (next_ch r)) < 0 then ''escape sequence not terminated''
                    else ''illegal character '' @ SprintfU U (ch ((next_ch ^^ j) (next_ch r)))
                         @ '' in escape sequence''),
                 False)"
    by (rule scanEscape_letter_digit_error [OF assms(2)])
next
  assume a: "48 \<le> ch r" "ch r \<le> 55" "\<forall>d\<in>set (digits_at j r). d < 8" "j < 3"
    "8 \<le> digitVal (ch ((next_ch ^^ j) r))"
  show "scanEscape U q r
              = (error ((next_ch ^^ j) r) (offset ((next_ch ^^ j) r))
                   (if ch ((next_ch ^^ j) r) < 0 then ''escape sequence not terminated''
                    else ''illegal character '' @ SprintfU U (ch ((next_ch ^^ j) r))
                         @ '' in escape sequence''),
                 False)"
    by (rule scanEscape_octal_digit_error [OF assms(2) _ a(3-5)]) (use a in simp)
next
  assume "ch r = 120 \<and> n = 2 \<and> m = 255 \<or> ch r = 117 \<and> n = 4 \<and> m = MaxRune
           \<or> ch r = 85 \<and> n = 8 \<and> m = MaxRune"
    "\<forall>d\<in>set (digits_at n (next_ch r)). d < 16"
    "m < number_of 16 (digits_at n (next_ch r))
           \<or> 0xD800 \<le> number_of 16 (digits_at n (next_ch r))
             \<and> number_of 16 (digits_at n (next_ch r)) < 0xE000"
  then show "scanEscape U q r
              = (error ((next_ch ^^ n) (next_ch r)) (offset r)
                   ''escape sequence is invalid Unicode code point'', False)"
    by (rule scanEscape_letter_code_point [OF assms(2)])
next
  assume a: "48 \<le> ch r" "ch r \<le> 55" "\<forall>d\<in>set (digits_at 3 r). d < 8"
    "255 < number_of 8 (digits_at 3 r)"
  show "scanEscape U q r
              = (error ((next_ch ^^ 3) r) (offset r)
                   ''escape sequence is invalid Unicode code point'', False)"
    by (rule scanEscape_octal_code_point [OF assms(2) _ a(3,4)]) (use a in simp)
qed

text \<open>
  An unterminated string with a NUL byte in it: the NUL is reported where it is, at offset
  1, the missing quote at the beginning of the string, offset 0. The raw string with the
  escape \<open>\08\<close>: the \<open>8\<close>, which is no octal digit, is reported where it is, at offset 3.
  The source \<open>#\<close> is an illegal character at offset 0, and in the source \<open>0x\<close> the missing
  digit is reported at offset 0.
\<close>

theorem Scan_error_positions_witness:
  "wf \<lparr>file' = example_file 2, dir = ''lib/'', src = [CHR 0x22, CHR 0x00],
       err = True, ch = 34, offset = 0, rdOffset = 1, ErrorCount = 0, calls = []\<rparr> \<and>
   calls (next_ch \<lparr>file' = example_file 2, dir = ''lib/'', src = [CHR 0x22, CHR 0x00],
       err = True, ch = 34, offset = 0, rdOffset = 1, ErrorCount = 0, calls = []\<rparr>)
     = [(1, ''illegal character NUL'')] \<and>
   spec_string_end 34 [CHR 0x22, CHR 0x00] 1 = (2, False) \<and>
   Scan example_lib
     \<lparr>file' = example_file 2, dir = ''lib/'', src = [CHR 0x22, CHR 0x00],
      err = True, ch = 34, offset = 0, rdOffset = 1, ErrorCount = 0, calls = []\<rparr>
     = (\<lparr>file' = example_file 2, dir = ''lib/'', src = [CHR 0x22, CHR 0x00],
         err = True, ch = -1, offset = 2, rdOffset = 2, ErrorCount = 2,
         calls = [(1, ''illegal character NUL''), (0, ''string literal not terminated'')]\<rparr>,
        1, STRING, [CHR 0x22, CHR 0x00]) \<and>
   digits_at 1 \<lparr>file' = example_file 5, dir = ''lib/'',
       src = [CHR 0x27, CHR 0x5C] @ ''08'' @ [CHR 0x27],
       err = True, ch = 48, offset = 2, rdOffset = 3, ErrorCount = 0, calls = []\<rparr> = [0] \<and>
   scanEscape example_lib 39
     \<lparr>file' = example_file 5, dir = ''lib/'', src = [CHR 0x27, CHR 0x5C] @ ''08'' @ [CHR 0x27],
      err = True, ch = 48, offset = 2, rdOffset = 3, ErrorCount = 0, calls = []\<rparr>
     = (\<lparr>file' = example_file 5, dir = ''lib/'', src = [CHR 0x27, CHR 0x5C] @ ''08'' @ [CHR 0x27],
         err = True, ch = 56, offset = 3, rdOffset = 4, ErrorCount = 1,
         calls = [(3, ''illegal character U+... in escape sequence'')]\<rparr>, False) \<and>
   Scan example_lib
     \<lparr>file' = example_file 5, dir = ''lib/'', src = [CHR 0x27, CHR 0x5C] @ ''08'' @ [CHR 0x27],
      err = True, ch = 39, offset = 0, rdOffset = 1, ErrorCount = 0, calls = []\<rparr>
     = (\<lparr>file' = example_file 5, dir = ''lib/'', src = [CHR 0x27, CHR 0x5C] @ ''08'' @ [CHR 0x27],
         err = True, ch = -1, offset = 5, rdOffset = 5, ErrorCount = 1,
         calls = [(3, ''illegal character U+... in escape sequence'')]\<rparr>,
        1, RAWSTRING, [CHR 0x27, CHR 0x5C] @ ''08'' @ [CHR 0x27]) \<and>
   Scan example_lib
     \<lparr>file' = example_file 1, dir = ''lib/'', src = ''#'',
      err = True, ch = 35, offset = 0, rdOffset = 1, ErrorCount = 0, calls = []\<rparr>
     = (\<lparr>file' = example_file 1, dir = ''lib/'', src = ''#'',
         err = True, ch = -1, offset = 1, rdOffset = 1, ErrorCount = 1,
         calls = [(0, ''illegal character U+...'')]\<rparr>, 1, ILLEGAL, ''#'') \<and>
   fst (Scan example_lib
     \<lparr>file' = example_file 2, dir = ''lib/'', src = ''0x'',
      err = True, ch = 48, offset = 0, rdOffset = 1, ErrorCount = 0, calls = []\<rparr>)
     = \<lparr>file' = example_file 2, dir = ''lib/'', src = ''0x'',
        err = True, ch = -1, offset = 2, rdOffset = 2, ErrorCount = 1,
        calls = [(0, ''illegal hexadecimal number'')]\<rparr>"
proof -
  let ?s = "\<lparr>file' = example_file 2, dir = ''lib/'', src = [CHR 0x22, CHR 0x00],
             err = True, ch = 34, offset = 0, rdOffset = 1, ErrorCount = 0, calls = []\<rparr>"
  let ?r = "\<lparr>file' = example_file 5, dir = ''lib/'',
             src = [CHR 0x27, CHR 0x5C] @ ''08'' @ [CHR 0x27],
             err = True, ch = 48, offset = 2, rdOffset = 3, ErrorCount = 0, calls = []\<rparr>"
  let ?u = "\<lparr>file' = example_file 5, dir = ''lib/'',
             src = [CHR 0x27, CHR 0x5C] @ ''08'' @ [CHR 0x27],
             err = True, ch = 39, offset = 0, rdOffset = 1, ErrorCount = 0, calls = []\<rparr>"
  have init: "Init (example_file 2) [CHR 0x22, CHR 0x00] True = Some ?s"
    by (simp add: scanner_defs)
  have w: "wf ?s" by (rule Init_wf [OF init])
  have q: "(39::int) = 34 \<or> (39::int) = 39" by simp
  have c: "ch ?s = 34 \<or> ch ?s = 39" by simp
  have e: "spec_string_end 34 [CHR 0x22, CHR 0x00] 1 = (2, False)"
    by (simp add: spec_string_end.simps)
  have n: "calls (next_ch ?s) = [(1, ''illegal character NUL'')]"
    by (simp add: next_ch_calls next_errors_def)
  have run: "Scan example_lib ?s
      = (\<lparr>file' = example_file 2, dir = ''lib/'', src = [CHR 0x22, CHR 0x00],
          err = True, ch = -1, offset = 2, rdOffset = 2, ErrorCount = 2,
          calls = [(1, ''illegal character NUL''), (0, ''string literal not terminated'')]\<rparr>,
         1, STRING, [CHR 0x22, CHR 0x00])"
    by (simp add: scanner_loops scanner_defs)
  have d: "digits_at 1 ?r = [0]" "\<forall>d\<in>set (digits_at 1 ?r). d < 8"
    by (simp_all add: digitVal_def)
  have r1: "(next_ch ^^ 1) ?r
      = \<lparr>file' = example_file 5, dir = ''lib/'', src = [CHR 0x27, CHR 0x5C] @ ''08'' @ [CHR 0x27],
         err = True, ch = 56, offset = 3, rdOffset = 4, ErrorCount = 0, calls = []\<rparr>"
    by (simp add: scanner_defs)
  have d1: "8 \<le> digitVal (ch ((next_ch ^^ 1) ?r))"
    unfolding r1 by (simp add: digitVal_def)
  have run': "Scan example_lib ?u
     = (\<lparr>file' = example_file 5, dir = ''lib/'', src = [CHR 0x27, CHR 0x5C] @ ''08'' @ [CHR 0x27],
         err = True, ch = -1, offset = 5, rdOffset = 5, ErrorCount = 1,
         calls = [(3, ''illegal character U+... in escape sequence'')]\<rparr>,
        1, RAWSTRING, [CHR 0x27, CHR 0x5C] @ ''08'' @ [CHR 0x27])"
    by (simp add: scanner_loops scanner_defs scanEscape_digits_numeral)
  let ?a = "\<lparr>file' = example_file 1, dir = ''lib/'', src = ''#'',
             err = True, ch = 35, offset = 0, rdOffset = 1, ErrorCount = 0, calls = []\<rparr>"
  let ?b = "\<lparr>file' = example_file 2, dir = ''lib/'', src = ''0x'',
             err = True, ch = 48, offset = 0, rdOffset = 1, ErrorCount = 0, calls = []\<rparr>"
  have inita: "Init (example_file 1) ''#'' True = Some ?a"
    by (simp add: scanner_defs)
  have initb: "Init (example_file 2) ''0x'' True = Some ?b"
    by (simp add: scanner_defs)
  have wa: "wf ?a" by (rule Init_wf [OF inita])
  have wb: "wf ?b" by (rule Init_wf [OF initb])
  have na: "next_ch ?a = \<lparr>file' = example_file 1, dir = ''lib/'', src = ''#'',
             err = True, ch = -1, offset = 1, rdOffset = 1, ErrorCount = 0, calls = []\<rparr>"
    by (simp add: scanner_defs)
  have ha: "\<not> isLetter example_lib (ch ?a)" "ch ?a \<notin> punctuation" "ch ?a \<noteq> bom"
    by (simp_all add: isLetter_def example_lib_def punctuation_def bom_def RuneSelf_def)
  have nb: "ch (next_ch ?b) = 120"
    "next_ch (next_ch ?b) = \<lparr>file' = example_file 2, dir = ''lib/'', src = ''0x'',
             err = True, ch = -1, offset = 2, rdOffset = 2, ErrorCount = 0, calls = []\<rparr>"
    by (simp_all add: scanner_defs)
  from Scan_error_positions [OF wa q, where U = example_lib] ha
  have A: "Scan example_lib ?a
      = (error (next_ch ?a) (offset ?a) (illegal_character example_lib (ch ?a)),
         Pos (file' ?a) (offset ?a), ILLEGAL, string_of_rune (ch ?a))"
    by simp
  from Scan_error_positions [OF wb q, where U = example_lib] nb(1)
  have B: "fst (Scan example_lib ?b)
      = (if digitVal (ch (next_ch (next_ch ?b))) < 16
         then scanMantissa 16 (next_ch (next_ch ?b))
         else error (next_ch (next_ch ?b)) (offset ?b) ''illegal hexadecimal number'')"
    by simp
  have A': "Scan example_lib ?a
     = (\<lparr>file' = example_file 1, dir = ''lib/'', src = ''#'',
         err = True, ch = -1, offset = 1, rdOffset = 1, ErrorCount = 1,
         calls = [(0, ''illegal character U+...'')]\<rparr>, 1, ILLEGAL, ''#'')"
    unfolding A na
    by (simp add: error_def illegal_character_def example_lib_def Pos_def example_file_def
          string_of_rune_def MaxRune_def char_of_def bit_iff_odd_drop_bit drop_bit_eq_div)
  have B': "fst (Scan example_lib ?b)
     = \<lparr>file' = example_file 2, dir = ''lib/'', src = ''0x'',
        err = True, ch = -1, offset = 2, rdOffset = 2, ErrorCount = 1,
        calls = [(0, ''illegal hexadecimal number'')]\<rparr>"
    unfolding B nb by (simp add: error_def digitVal_def)
  from Scan_error_positions [OF w q, where r = ?r and j = 1 and U = example_lib] c e d(2) d1
  have "fst (Scan example_lib ?s)
          = error (fst (Scan example_lib ?s)\<lparr>ErrorCount := 1, calls := [(1, ''illegal character NUL'')]\<rparr>)
              0 ''string literal not terminated'' \<and>
        scanEscape example_lib 39 ?r
          = (error ((next_ch ^^ 1) ?r) (offset ((next_ch ^^ 1) ?r))
               (''illegal character '' @ SprintfU example_lib (ch ((next_ch ^^ 1) ?r))
                @ '' in escape sequence''), False)"
    unfolding r1 run by (simp add: error_def)
  then show ?thesis
    using w n e run run' d(1) A' B' unfolding r1 by (simp add: error_def example_lib_def)
qed

text \<open>
  The source \<open>078\<close>: the characters \<open>0\<close> and \<open>7\<close> are octal digits, the offending character
  is the \<open>8\<close> at offset 2. The handler is called with offset 0, the beginning of the
  number.
\<close>

theorem Scan_illegal_digit_counterexample:
  "Init (example_file 3) ''078'' True
     = Some \<lparr>file' = example_file 3, dir = ''lib/'', src = ''078'',
             err = True, ch = 48, offset = 0, rdOffset = 1, ErrorCount = 0, calls = []\<rparr> \<and>
   Scan example_lib
     \<lparr>file' = example_file 3, dir = ''lib/'', src = ''078'',
      err = True, ch = 48, offset = 0, rdOffset = 1, ErrorCount = 0, calls = []\<rparr>
     = (\<lparr>file' = example_file 3, dir = ''lib/'', src = ''078'',
         err = True, ch = -1, offset = 3, rdOffset = 3, ErrorCount = 1,
         calls = [(0, ''illegal octal number'')]\<rparr>, 1, INT', ''078'') \<and>
   digitVal (of_char (''078'' ! 0)) < 8 \<and> digitVal (of_char (''078'' ! 1)) < 8 \<and>
   \<not> digitVal (of_char (''078'' ! 2)) < 8"
  by (simp add: scanner_loops scanner_defs)


section \<open>Literals\<close>

text \<open>
  C10. \<^verbatim>\<open>Scan\<close> returns a non-empty literal only with an identifier, boolean, integer,
  float, string, raw-string or illegal token. With every other token the literal is
  empty: with \<open>COMMENT\<close> (although the text of the comment is consumed), with the
  end-of-file token and with every operator and delimiter.
\<close>

theorem Scan_literal:
  assumes "Scan U s = (s', pos, tok, lit)"
  shows "(lit \<noteq> [] \<longrightarrow> tok \<in> {IDENT, BOOL, INT', FLOAT, STRING, RAWSTRING, ILLEGAL}) \<and>
         (tok \<in> {COMMENT, EOF, ADD, SUB, MUL, QUO, REM, AND, OR, EQL, LSS, GTR, ASSIGN, NOT,
                  NEQ, LEQ, GEQ, LPAREN, LBRACK, LBRACE, COMMA, PERIOD, RPAREN, RBRACK,
                  RBRACE, COLON} \<longrightarrow> lit = [])"
proof -
  have tok: "tok = fst (snd (snd (Scan U s)))" and lit: "lit = snd (snd (snd (Scan U s)))"
    using assms by simp_all
  have "lit \<noteq> [] \<longrightarrow> tok \<in> {IDENT, BOOL, INT', FLOAT, STRING, RAWSTRING, ILLEGAL}"
    using scanNumber_tok [of False "skipWhiteSpace s"]
      Scan_switch_lit [of U "ch (skipWhiteSpace s)" _ "next_ch (skipWhiteSpace s)"]
    unfolding tok lit
    by (auto simp: Scan_def Let_def case_prod_beta split: if_splits)
  then show ?thesis by auto
qed

theorem Scan_literal_witness:
  "Scan example_lib
     \<lparr>file' = example_file 5, dir = ''lib/'', src = ''/* a'', err = True, ch = 47,
      offset = 0, rdOffset = 1, ErrorCount = 0, calls = []\<rparr>
   = (\<lparr>file' = example_file 5, dir = ''lib/'', src = ''/* a'', err = True, ch = -1,
       offset = 4, rdOffset = 4, ErrorCount = 0, calls = []\<rparr>, 1, COMMENT, [])
   \<and> COMMENT \<in> {COMMENT, EOF, ADD, SUB, MUL, QUO, REM, AND, OR, EQL, LSS, GTR, ASSIGN, NOT,
                  NEQ, LEQ, GEQ, LPAREN, LBRACK, LBRACE, COMMA, PERIOD, RPAREN, RBRACK,
                  RBRACE, COLON}
   \<and> ([]::string) = []"
proof -
  have run: "Scan example_lib
     \<lparr>file' = example_file 5, dir = ''lib/'', src = ''/* a'', err = True, ch = 47,
      offset = 0, rdOffset = 1, ErrorCount = 0, calls = []\<rparr>
   = (\<lparr>file' = example_file 5, dir = ''lib/'', src = ''/* a'', err = True, ch = -1,
       offset = 4, rdOffset = 4, ErrorCount = 0, calls = []\<rparr>, 1, COMMENT, [])"
    by (simp add: scanner_loops scanner_defs)
  from Scan_literal [OF run] run show ?thesis by simp
qed

section \<open>Serializing a file set\<close>

lemma File_roundtrip:
  "map ((\<lambda>f. \<lparr>name = Name f, base = Base f, fsize = Size f, lines = Lines f,
                infos = Infos f\<rparr>)
        \<circ> (\<lambda>f. \<lparr>Name = name f, Base = base f, Size = fsize f, Lines = lines f,
                  Infos = infos f\<rparr>)) fs = fs"
  by (induction fs) simp_all

text \<open>
  C9. A file set \<open>s\<close> is written with \<^verbatim>\<open>Write\<close> and what was written is read into a set
  \<open>t\<close> with \<^verbatim>\<open>Read\<close>, through an encoder and a decoder such that decoding what was encoded
  gives the value back. \<^verbatim>\<open>Read\<close> then returns no error, and \<open>t\<close> becomes \<open>s\<close> with an empty
  cache: it has the base of \<open>s\<close> and the files of \<open>s\<close> in their order, each with its name,
  base, size, line table and alternate-position infos, and \<open>last'\<close> is \<open>None\<close>, whatever it
  was in \<open>s\<close> and \<open>t\<close>.
\<close>

theorem Read_Write:
  assumes "\<And>ss. decode (encode ss) = Inr ss"
  shows "Read t (decode (Write s encode)) = (s\<lparr>last' := None\<rparr>, None)"
  using assms by (simp add: Read_def Write_def File_roundtrip)

theorem Read_Write_witness:
  "Read \<lparr>base' = 1, files = [], last' = None\<rparr>
     (Inr (Write \<lparr>base' = 12,
                  files = [\<lparr>name = ''a.zo'', base = 1, fsize = 3, lines = [0, 2], infos = []\<rparr>,
                           \<lparr>name = ''b.zo'', base = 5, fsize = 6, lines = [0],
                             infos = [\<lparr>Offset = 2, Filename = ''c.zo'', Line = 7\<rparr>]\<rparr>],
                  last' = Some \<lparr>name = ''a.zo'', base = 1, fsize = 3, lines = [0, 2],
                                infos = []\<rparr>\<rparr>
            (\<lambda>ss. ss)) :: unit + serializedFileSet)
   = (\<lparr>base' = 12,
       files = [\<lparr>name = ''a.zo'', base = 1, fsize = 3, lines = [0, 2], infos = []\<rparr>,
                \<lparr>name = ''b.zo'', base = 5, fsize = 6, lines = [0],
                  infos = [\<lparr>Offset = 2, Filename = ''c.zo'', Line = 7\<rparr>]\<rparr>],
       last' = None\<rparr>, None)"
  using Read_Write [of "Inr :: serializedFileSet \<Rightarrow> unit + serializedFileSet" "\<lambda>ss. ss"
      "\<lparr>base' = 1, files = [], last' = None\<rparr>"]
  by simp

end
